theory Spec2Isabelle
  imports Main
begin

section \<open>JavaScript values\<close>

text \<open>
  The module \<^verbatim>\<open>src/utils.ts\<close> works on records obtained from \<^verbatim>\<open>JSON.parse\<close> and on
  replies of the Directus API. Both are JSON data, so a JavaScript value is modelled as
  a JSON tree extended with \<^verbatim>\<open>undefined\<close> (the result of reading a missing property).

  \<^item> Numbers are modelled as integers (Directus ids); fractions, \<^verbatim>\<open>-0\<close> and magnitudes
    from \<^verbatim>\<open>1e21\<close> on are outside the model.
  \<^item> A string is a list of 8-bit characters; code units beyond \<^verbatim>\<open>0xFF\<close> are outside
    the model.
  \<^item> An object is an association list in the order of \<^verbatim>\<open>Object.keys\<close>.
  \<^item> An object has the prototype \<^verbatim>\<open>Object.prototype\<close>, as every result of
    \<^verbatim>\<open>JSON.parse\<close> and every object literal of the module has. The operator \<^verbatim>\<open>in\<close>
    finds the members of the prototype (\<open>js_has\<close>). Their values, built-in functions and
    the prototype itself, are no values of the model; a run that would take one of them as
    data ends with the outcome \<open>Unsupported\<close> (see \<open>error\<close>).
  \<^item> Two arrays or objects compared by \<^verbatim>\<open>===\<close> are never the same reference, since every
    comparison in the module is between results of different \<^verbatim>\<open>JSON.parse\<close> calls or
    API replies.
\<close>

datatype jsval =
    JUndefined
  | JNull
  | JBool bool
  | JNum int
  | JStr string
  | JArr "jsval list"
  | JObj "(string \<times> jsval) list"

type_synonym obj = "(string \<times> jsval) list"

text \<open>The ways in which a run ends early. \<open>TypeError\<close> is an exception thrown by the
  code and \<open>FetchFailure\<close> a rejected request. \<open>Unsupported\<close> is no failure of the code:
  it ends a run of the model at the point where the code goes on with a value or an effect
  that the model does not represent (a member of \<^verbatim>\<open>Object.prototype\<close> read as data, an
  assignment through the setter \<^verbatim>\<open>__proto__\<close>). Nothing is stated about the rest of such a
  run; the state returned with it is the state at that point.\<close>

datatype error = TypeError | FetchFailure | Unsupported

fun typeof :: "jsval \<Rightarrow> string" where
  "typeof JUndefined = ''undefined''"
| "typeof JNull = ''object''"
| "typeof (JBool b) = ''boolean''"
| "typeof (JNum n) = ''number''"
| "typeof (JStr s) = ''string''"
| "typeof (JArr xs) = ''object''"
| "typeof (JObj ps) = ''object''"

fun truthy :: "jsval \<Rightarrow> bool" where
  "truthy JUndefined = False"
| "truthy JNull = False"
| "truthy (JBool b) = b"
| "truthy (JNum n) = (n \<noteq> 0)"
| "truthy (JStr s) = (s \<noteq> [])"
| "truthy (JArr xs) = True"
| "truthy (JObj ps) = True"

definition nullish :: "jsval \<Rightarrow> bool" where
  "nullish v = (v = JUndefined \<or> v = JNull)"

definition instanceof_Array :: "jsval \<Rightarrow> bool" where
  "instanceof_Array v = (case v of JArr xs \<Rightarrow> True | _ \<Rightarrow> False)"

text \<open>\<^verbatim>\<open>a === b\<close>; also the comparison of \<^verbatim>\<open>Array.prototype.includes\<close> on these values.\<close>

definition strict_eq :: "jsval \<Rightarrow> jsval \<Rightarrow> bool" where
  "strict_eq a b = (case a of JArr xs \<Rightarrow> False | JObj ps \<Rightarrow> False | _ \<Rightarrow> a = b)"

subsection \<open>Numbers and strings\<close>

definition digit_char :: "nat \<Rightarrow> char" where
  "digit_char d = ''0123456789abcdef'' ! d"

fun show_nat :: "nat \<Rightarrow> string" where
  "show_nat n = (if n < 10 then [digit_char n] else show_nat (n div 10) @ [digit_char (n mod 10)])"

declare show_nat.simps [simp del]

definition show_int :: "int \<Rightarrow> string" where
  "show_int i = (if i < 0 then CHR ''-'' # show_nat (nat (- i)) else show_nat (nat i))"

fun join :: "string \<Rightarrow> string list \<Rightarrow> string" where
  "join sep [] = []"
| "join sep [x] = x"
| "join sep (x # y # ys) = x @ sep @ join sep (y # ys)"

text \<open>\<^verbatim>\<open>String(v)\<close>, the conversion used by template literals, by \<^verbatim>\<open>Array.prototype.join\<close>
  and for property keys.\<close>

fun to_string :: "jsval \<Rightarrow> string" where
  "to_string JUndefined = ''undefined''"
| "to_string JNull = ''null''"
| "to_string (JBool b) = (if b then ''true'' else ''false'')"
| "to_string (JNum n) = show_int n"
| "to_string (JStr s) = s"
| "to_string (JArr xs) =
     join '','' (map (\<lambda>x. if x = JUndefined \<or> x = JNull then [] else to_string x) xs)"
| "to_string (JObj ps) = ''[object Object]''"

text \<open>\<^verbatim>\<open>ids.join(',')\<close>.\<close>

definition join_ids :: "jsval list \<Rightarrow> string" where
  "join_ids ids = to_string (JArr ids)"

definition str_starts_with :: "string \<Rightarrow> string \<Rightarrow> bool" where
  "str_starts_with s p = (take (length p) s = p)"

text \<open>\<^verbatim>\<open>m.includes(f)\<close> on strings.\<close>

fun str_includes :: "string \<Rightarrow> string \<Rightarrow> bool" where
  "str_includes [] f = (f = [])"
| "str_includes (c # cs) f = (str_starts_with (c # cs) f \<or> str_includes cs f)"

text \<open>\<^verbatim>\<open>path.split('.')\<close>.\<close>

fun split_sep :: "char \<Rightarrow> string \<Rightarrow> string list" where
  "split_sep sep [] = [] # []"
| "split_sep sep (c # cs) =
     (if c = sep then [] # split_sep sep cs
      else (case split_sep sep cs of [] \<Rightarrow> [c] # [] | p # ps \<Rightarrow> (c # p) # ps))"

subsection \<open>Property keys and objects\<close>

text \<open>The position of a character in a string, for reading decimal digits.\<close>

fun position :: "char \<Rightarrow> string \<Rightarrow> nat option" where
  "position c [] = None"
| "position c (d # ds) = (if c = d then Some 0 else map_option Suc (position c ds))"

definition digit_val :: "char \<Rightarrow> nat option" where
  "digit_val c = position c ''0123456789''"

fun digits_val :: "int \<Rightarrow> string \<Rightarrow> int option" where
  "digits_val acc [] = Some acc"
| "digits_val acc (c # cs) =
     (case digit_val c of None \<Rightarrow> None | Some d \<Rightarrow> digits_val (10 * acc + int d) cs)"

text \<open>An array index is a canonical numeric string below \<^verbatim>\<open>2^32 - 1\<close>. Such keys come
  first, in ascending order, in the own keys of an object.\<close>

definition array_index :: "string \<Rightarrow> int option" where
  "array_index k =
     (if k = [] \<or> (hd k = CHR ''0'' \<and> k \<noteq> ''0'') then None
      else case digits_val 0 k of
             None \<Rightarrow> None
           | Some n \<Rightarrow> if n < 4294967295 then Some n else None)"

definition key_before :: "string \<Rightarrow> string \<Rightarrow> bool" where
  "key_before k k' =
     (case array_index k of
        None \<Rightarrow> False
      | Some n \<Rightarrow> (case array_index k' of None \<Rightarrow> True | Some m \<Rightarrow> n < m))"

fun key_insert :: "string \<Rightarrow> 'v \<Rightarrow> (string \<times> 'v) list \<Rightarrow> (string \<times> 'v) list" where
  "key_insert k v [] = [(k, v)]"
| "key_insert k v ((k', v') # ps) =
     (if key_before k k' then (k, v) # (k', v') # ps else (k', v') # key_insert k v ps)"

fun key_replace :: "string \<Rightarrow> 'v \<Rightarrow> (string \<times> 'v) list \<Rightarrow> (string \<times> 'v) list" where
  "key_replace k v [] = []"
| "key_replace k v ((k', v') # ps) =
     (if k' = k then (k, v) # ps else (k', v') # key_replace k v ps)"

text \<open>\<open>k\<close> is an own property of the object (\<^verbatim>\<open>Object.keys(o).includes(k)\<close>).\<close>

definition has_key :: "(string \<times> 'v) list \<Rightarrow> string \<Rightarrow> bool" where
  "has_key ps k = (map_of ps k \<noteq> None)"

text \<open>The string-keyed members of \<^verbatim>\<open>Object.prototype\<close> (ECMA-262 with Annex B, as in
  every browser).\<close>

definition Object_prototype_names :: "string list" where
  "Object_prototype_names =
     [''constructor'', ''hasOwnProperty'', ''isPrototypeOf'', ''propertyIsEnumerable'',
      ''toLocaleString'', ''toString'', ''valueOf'', ''__proto__'',
      ''__defineGetter__'', ''__defineSetter__'', ''__lookupGetter__'', ''__lookupSetter__'']"

definition inherited :: "string \<Rightarrow> bool" where
  "inherited k = (k \<in> set Object_prototype_names)"

text \<open>\<^verbatim>\<open>k in o\<close> for an object \<^verbatim>\<open>o\<close>: an own property, or a member of the prototype.\<close>

definition js_has :: "(string \<times> 'v) list \<Rightarrow> string \<Rightarrow> bool" where
  "js_has ps k = (has_key ps k \<or> inherited k)"

text \<open>\<^verbatim>\<open>o[k]\<close> reads a member of the prototype: \<open>k\<close> names one and is no own property.\<close>

definition reads_prototype :: "(string \<times> 'v) list \<Rightarrow> string \<Rightarrow> bool" where
  "reads_prototype ps k = (inherited k \<and> \<not> has_key ps k)"

text \<open>\<^verbatim>\<open>o[k]\<close> for an object \<^verbatim>\<open>o\<close>, where \<open>k\<close> is an own property or no property at all.
  Where \<open>reads_prototype o k\<close> holds, JavaScript delivers a built-in function (the
  prototype itself for \<^verbatim>\<open>__proto__\<close>) and the model \<^verbatim>\<open>undefined\<close>. The engine uses a value
  read in this way under that condition in two places only. In \<^verbatim>\<open>shouldUpdate\<close> the two
  agree on \<^verbatim>\<open>!==\<close> against a parsed value and on \<^verbatim>\<open>JSON.stringify\<close> for a built-in
  function, and in the tests of lines 112 and 126 (\<^verbatim>\<open>typeof ... === 'object'\<close>,
  \<^verbatim>\<open>instanceof Array\<close>) likewise; the exception is the key \<^verbatim>\<open>__proto__\<close>, which is why the
  callback below does not emit for a record with that key. Every other read is guarded
  by \<open>reads_prototype\<close> or uses a key that \<^verbatim>\<open>Object.prototype\<close> does not have (\<^verbatim>\<open>id\<close>,
  \<^verbatim>\<open>update\<close>, \<^verbatim>\<open>create\<close>, \<^verbatim>\<open>delete\<close>).\<close>

definition obj_get :: "obj \<Rightarrow> string \<Rightarrow> jsval" where
  "obj_get ps k = (case map_of ps k of None \<Rightarrow> JUndefined | Some v \<Rightarrow> v)"

text \<open>\<^verbatim>\<open>o[k] = v\<close>: an existing key keeps its place, a new one is added (after the
  array indices below it, or at the end). This is the assignment of JavaScript except for
  the key \<^verbatim>\<open>__proto__\<close> on an object that lacks it, which the callers exclude. The value
  type is left open, so that the item cache, an object of objects, uses the same
  operations.\<close>

definition obj_set :: "(string \<times> 'v) list \<Rightarrow> string \<Rightarrow> 'v \<Rightarrow> (string \<times> 'v) list" where
  "obj_set ps k v = (if has_key ps k then key_replace k v ps else key_insert k v ps)"

text \<open>The own enumerable properties that a spread \<^verbatim>\<open>{...v}\<close> copies.\<close>

fun own_props :: "jsval \<Rightarrow> obj" where
  "own_props (JObj ps) = ps"
| "own_props (JArr xs) = zip (map show_nat [0..<length xs]) xs"
| "own_props (JStr s) = zip (map show_nat [0..<length s]) (map (\<lambda>c. JStr [c]) s)"
| "own_props v = []"

text \<open>\<^verbatim>\<open>{...base, ...v}\<close>, where \<open>base\<close> is the object built so far.\<close>

definition spread :: "obj \<Rightarrow> jsval \<Rightarrow> obj" where
  "spread base v = foldl (\<lambda>acc (k, x). obj_set acc k x) base (own_props v)"

text \<open>\<^verbatim>\<open>v[k]\<close> for a receiver that is neither \<^verbatim>\<open>null\<close> nor \<^verbatim>\<open>undefined\<close> (on those
  JavaScript throws; every caller checks \<open>nullish\<close> first).\<close>

fun get_prop :: "jsval \<Rightarrow> string \<Rightarrow> jsval" where
  "get_prop (JObj ps) k = obj_get ps k"
| "get_prop (JArr xs) k =
     (if k = ''length'' then JNum (int (length xs))
      else case array_index k of
             None \<Rightarrow> JUndefined
           | Some n \<Rightarrow> if n < int (length xs) then xs ! nat n else JUndefined)"
| "get_prop (JStr s) k =
     (if k = ''length'' then JNum (int (length s))
      else case array_index k of
             None \<Rightarrow> JUndefined
           | Some n \<Rightarrow> if n < int (length s) then JStr [s ! nat n] else JUndefined)"
| "get_prop v k = JUndefined"

text \<open>The string-keyed members of \<^verbatim>\<open>Array.prototype\<close> other than \<^verbatim>\<open>length\<close> (ECMAScript
  2023, with the methods that later editions and proposals add, so that the test below does
  not depend on the edition).\<close>

definition Array_prototype_names :: "string list" where
  "Array_prototype_names =
     [''at'', ''concat'', ''copyWithin'', ''entries'', ''every'', ''fill'', ''filter'', ''find'',
      ''findIndex'', ''findLast'', ''findLastIndex'', ''flat'', ''flatMap'', ''forEach'',
      ''includes'', ''indexOf'', ''join'', ''keys'', ''lastIndexOf'', ''map'', ''pop'', ''push'',
      ''reduce'', ''reduceRight'', ''reverse'', ''shift'', ''slice'', ''some'', ''sort'', ''splice'',
      ''toReversed'', ''toSorted'', ''toSpliced'', ''unshift'', ''values'', ''with'',
      ''group'', ''groupBy'', ''groupToMap'']"

text \<open>\<open>k\<close> is an own property of the value, for an object or an array.\<close>

fun own_key :: "jsval \<Rightarrow> string \<Rightarrow> bool" where
  "own_key (JObj ps) k = has_key ps k"
| "own_key (JArr xs) k =
     (k = ''length'' \<or> (case array_index k of None \<Rightarrow> False | Some n \<Rightarrow> n < int (length xs)))"
| "own_key v k = False"

text \<open>The operator \<^verbatim>\<open>k in v\<close>: a \<^verbatim>\<open>TypeError\<close> unless \<^verbatim>\<open>v\<close> is an object or an array;
  an array inherits from \<^verbatim>\<open>Array.prototype\<close> and from \<^verbatim>\<open>Object.prototype\<close>.\<close>

fun js_in :: "string \<Rightarrow> jsval \<Rightarrow> error + bool" where
  "js_in k (JObj ps) = Inr (js_has ps k)"
| "js_in k (JArr xs) =
     Inr (own_key (JArr xs) k \<or> k \<in> set Array_prototype_names \<or> inherited k)"
| "js_in k v = Inl TypeError"

subsection \<open>\<^verbatim>\<open>JSON.stringify\<close>\<close>

definition json_quote_char :: "char \<Rightarrow> string" where
  "json_quote_char c =
     (if c = CHR 0x22 then [CHR 0x5C, CHR 0x22]
      else if c = CHR 0x5C then [CHR 0x5C, CHR 0x5C]
      else if c = CHR 0x08 then [CHR 0x5C, CHR ''b'']
      else if c = CHR 0x0C then [CHR 0x5C, CHR ''f'']
      else if c = CHR 0x0A then [CHR 0x5C, CHR ''n'']
      else if c = CHR 0x0D then [CHR 0x5C, CHR ''r'']
      else if c = CHR 0x09 then [CHR 0x5C, CHR ''t'']
      else if (of_char c :: nat) < 32
        then [CHR 0x5C, CHR ''u'', CHR ''0'', CHR ''0'',
              digit_char (of_char c div 16), digit_char (of_char c mod 16)]
      else [c])"

definition json_quote :: "string \<Rightarrow> string" where
  "json_quote s = [CHR 0x22] @ concat (map json_quote_char s) @ [CHR 0x22]"

text \<open>\<^verbatim>\<open>JSON.stringify(v)\<close> without replacer or indentation; \<open>None\<close> is the result
  \<^verbatim>\<open>undefined\<close>.\<close>

fun JSON_stringify :: "jsval \<Rightarrow> string option" where
  "JSON_stringify JUndefined = None"
| "JSON_stringify JNull = Some ''null''"
| "JSON_stringify (JBool b) = Some (if b then ''true'' else ''false'')"
| "JSON_stringify (JNum n) = Some (show_int n)"
| "JSON_stringify (JStr s) = Some (json_quote s)"
| "JSON_stringify (JArr xs) =
     Some (''['' @ join '',''
        (map (\<lambda>x. case JSON_stringify x of None \<Rightarrow> ''null'' | Some t \<Rightarrow> t) xs) @ '']'')"
| "JSON_stringify (JObj ps) =
     Some (''{'' @ join '',''
        (concat (map (\<lambda>(k, v). case JSON_stringify v of
                                   None \<Rightarrow> []
                                 | Some t \<Rightarrow> [json_quote k @ '':'' @ t]) ps)) @ ''}'')"

section \<open>Template field matcher\<close>

text \<open>
  \<^verbatim>\<open>template.match(/{{.*?}}/g)\<close>: the matches are collected from left to right and do not
  overlap. At a position the pattern matches iff the text there starts with \<^verbatim>\<open>{{\<close> and a
  \<^verbatim>\<open>}}\<close> follows after characters that the dot accepts; the lazy quantifier stops at the
  first such \<^verbatim>\<open>}}\<close>. The dot of a JavaScript regular expression (no \<^verbatim>\<open>s\<close> flag) accepts
  every character except the line terminators; among the 8-bit characters these are line
  feed and carriage return. The scanner takes the dot as a parameter, so that the same
  scanner serves the wording of the specification.
\<close>

definition is_line_terminator :: "char \<Rightarrow> bool" where
  "is_line_terminator c = (c = CHR 0x0A \<or> c = CHR 0x0D)"

definition regexp_dot :: "char \<Rightarrow> bool" where
  "regexp_dot c = (\<not> is_line_terminator c)"

fun lazy_until_close :: "(char \<Rightarrow> bool) \<Rightarrow> string \<Rightarrow> (string \<times> string) option" where
  "lazy_until_close dot [] = None"
| "lazy_until_close dot (c # cs) =
     (if str_starts_with (c # cs) ''}}'' then Some ([], drop 2 (c # cs))
      else if dot c then
        (case lazy_until_close dot cs of
           None \<Rightarrow> None
         | Some (body, rest) \<Rightarrow> Some (c # body, rest))
      else None)"

definition match_at :: "(char \<Rightarrow> bool) \<Rightarrow> string \<Rightarrow> (string \<times> string) option" where
  "match_at dot s =
     (if str_starts_with s ''{{'' then
        (case lazy_until_close dot (drop 2 s) of
           None \<Rightarrow> None
         | Some (body, rest) \<Rightarrow> Some (''{{'' @ body @ ''}}'', rest))
      else None)"

lemma lazy_until_close_shorter:
  "lazy_until_close dot s = Some (body, rest) \<Longrightarrow> length rest < length s"
  by (induction s arbitrary: body) (auto split: if_splits option.splits)

lemma match_at_shorter: "match_at dot s = Some (m, rest) \<Longrightarrow> length rest < length s"
  by (auto simp: match_at_def split: if_splits option.splits dest!: lazy_until_close_shorter)

function match_all :: "(char \<Rightarrow> bool) \<Rightarrow> string \<Rightarrow> string list" where
  "match_all dot [] = []"
| "match_all dot (c # cs) =
     (case match_at dot (c # cs) of
        Some (m, rest) \<Rightarrow> m # match_all dot rest
      | None \<Rightarrow> match_all dot cs)"
  by pat_completeness auto
termination
  by (relation "measure (\<lambda>(dot, s). length s)") (auto dest: match_at_shorter)

text \<open>\<^verbatim>\<open>checkFieldInTemplate\<close>; a \<^verbatim>\<open>null\<close> result of \<^verbatim>\<open>match\<close> is the empty list.\<close>

definition checkFieldInTemplate :: "string \<Rightarrow> string \<Rightarrow> bool" where
  "checkFieldInTemplate template field =
     list_ex (\<lambda>m. str_includes m field) (match_all regexp_dot template)"

text \<open>The specification's wording of the matcher (\<open>\<section>\<close>4.1): a placeholder is
  \<^verbatim>\<open>{{\<close>, any characters (non-greedy), \<^verbatim>\<open>}}\<close>.\<close>

definition spec_extractPlaceholders :: "string \<Rightarrow> string list" where
  "spec_extractPlaceholders template = match_all (\<lambda>c. True) template"

definition spec_fieldIsReferenced :: "string \<Rightarrow> string \<Rightarrow> bool" where
  "spec_fieldIsReferenced template fieldName =
     list_ex (\<lambda>m. str_includes m fieldName) (spec_extractPlaceholders template)"

section \<open>Trigger gate\<close>

text \<open>\<^verbatim>\<open>shouldUpdate\<close>. The keys are those of \<^verbatim>\<open>{ ...oldVal, ...val }\<close>.\<close>

definition changedFields :: "string \<Rightarrow> obj \<Rightarrow> obj \<Rightarrow> string list" where
  "changedFields computedField val oldVal =
     filter (\<lambda>key. key \<noteq> computedField
                \<and> \<not> strict_eq (obj_get val key) (obj_get oldVal key)
                \<and> JSON_stringify (obj_get val key) \<noteq> JSON_stringify (obj_get oldVal key))
       (map fst (spread (spread [] (JObj oldVal)) (JObj val)))"

definition shouldUpdate :: "string \<Rightarrow> string \<Rightarrow> obj \<Rightarrow> obj \<Rightarrow> bool" where
  "shouldUpdate template computedField val oldVal =
     (if changedFields computedField val oldVal = [] then True
      else list_ex (\<lambda>field. checkFieldInTemplate template field)
             (changedFields computedField val oldVal))"

section \<open>Deep values engine\<close>

text \<open>
  \<^verbatim>\<open>useDeepValues\<close> registers one callback on the serialized record. The callback is
  modelled as a function from the engine's state to an outcome and the next state; one
  invocation runs to its end before the next one starts (overlapping invocations are not
  modelled).

  The remote client is a parameter: a function from the requests issued so far and the
  next request to the reply. A reply carries the value the code reads from it,
  \<^verbatim>\<open>(await api.get(...)).data.data[key]\<close> for a single-field read and
  \<^verbatim>\<open>(await api.get(...)).data.data\<close> for a read of items; a rejected promise is
  \<open>Rejected\<close>. Every request is appended to the log \<open>requests\<close>.
\<close>

text \<open>Modelled from the spec: the type \<^verbatim>\<open>Relation\<close> is imported from
  \<^verbatim>\<open>@directus/shared/types\<close> and is not part of the repository. The relation descriptor
  of the specification (\<open>\<section>\<close>3) has the owning collection, the related collection and the
  names of the "one" and the "many" field; these are the fields the code reads. \<open>None\<close>
  stands for \<^verbatim>\<open>null\<close>.\<close>

record relation_meta =
  one_field :: "string option"
  many_field :: "string option"

record relation =
  collection :: string
  related_collection :: "string option"
  meta :: "relation_meta option"

datatype request = GetField string string | GetItems string string

datatype response = Rejected | Reply jsval

type_synonym api = "request list \<Rightarrow> request \<Rightarrow> response"

text \<open>The state of a session: the two caches, the value of the ref \<^verbatim>\<open>finalValues\<close> (the
  emitted record) and the log of the requests.\<close>

record engine =
  fieldCache :: obj
  itemCache :: "(string \<times> obj) list"
  finalValues :: obj
  requests :: "request list"

text \<open>The arguments of \<^verbatim>\<open>useDeepValues\<close> other than \<^verbatim>\<open>values\<close>, and the current user of
  the user store.\<close>

record props =
  relations :: "relation list"
  collectionName :: string
  computedField :: string
  pk :: jsval
  template :: string
  currentUser :: jsval

datatype outcome = Skipped | Emitted | Aborted error

definition init_engine :: "jsval \<Rightarrow> engine" where
  "init_engine user =
     \<lparr>fieldCache = [], itemCache = [], finalValues = [(''__currentUser'', user)],
      requests = []\<rparr>"

definition and_then ::
  "(error + 'a) \<times> engine \<Rightarrow> ('a \<Rightarrow> engine \<Rightarrow> (error + 'b) \<times> engine)
     \<Rightarrow> (error + 'b) \<times> engine" where
  "and_then m f = (case m of (Inl e, s) \<Rightarrow> (Inl e, s) | (Inr x, s) \<Rightarrow> f x s)"

definition fetch :: "api \<Rightarrow> request \<Rightarrow> engine \<Rightarrow> response \<times> engine" where
  "fetch api req s = (api (requests s) req, s\<lparr>requests := requests s @ [req]\<rparr>)"

text \<open>\<^verbatim>\<open>[rel.meta?.one_field, rel.meta?.many_field].includes(key)\<close>\<close>

definition relation_mentions :: "relation \<Rightarrow> string \<Rightarrow> bool" where
  "relation_mentions rel key =
     (case meta rel of
        None \<Rightarrow> False
      | Some m \<Rightarrow> one_field m = Some key \<or> many_field m = Some key)"

text \<open>\<^verbatim>\<open>fieldName\<close> as the property key it is used as: \<^verbatim>\<open>null\<close> reads the key
  \<^verbatim>\<open>"null"\<close>.\<close>

definition field_name :: "bool \<Rightarrow> relation \<Rightarrow> string" where
  "field_name isM2O rel =
     (case meta rel of
        None \<Rightarrow> ''undefined''
      | Some m \<Rightarrow>
          (case (if isM2O then many_field m else one_field m) of
             None \<Rightarrow> ''null''
           | Some f \<Rightarrow> f))"

definition default_changes :: jsval where
  "default_changes = JObj [(''create'', JArr []), (''update'', JArr []), (''delete'', JArr [])]"

definition clear_caches :: "engine \<Rightarrow> engine" where
  "clear_caches s = s\<lparr>fieldCache := [], itemCache := []\<rparr>"

text \<open>Lines 108--131: the many-to-one value is normalized to a mutation, and both caches
  are reset on the two transitions that follow a save. \<open>fieldChanges\<close> is not nullish
  here (line 99).\<close>

definition normalize_changes :: "bool \<Rightarrow> jsval \<Rightarrow> jsval \<Rightarrow> engine \<Rightarrow> jsval \<times> engine" where
  "normalize_changes isM2O fieldChanges oldRaw s =
     (if isM2O then
        (if typeof fieldChanges = ''number'' \<or> typeof fieldChanges = ''string'' then
           (JObj [(''update'', JArr [JObj [(''id'', fieldChanges)]])],
            if typeof oldRaw = ''object'' then clear_caches s else s)
         else if typeof fieldChanges = ''object'' then
           (if js_in ''id'' fieldChanges = Inr True
              then JObj [(''update'', JArr [fieldChanges])]
              else JObj [(''create'', JArr [JObj (spread [] fieldChanges)])],
            s)
         else (fieldChanges, s))
      else
        (fieldChanges,
         if instanceof_Array fieldChanges \<and> \<not> instanceof_Array oldRaw
           then clear_caches s else s))"

text \<open>\<^verbatim>\<open>xs.concat(d)\<close>\<close>

definition js_concat :: "jsval list \<Rightarrow> jsval \<Rightarrow> jsval list" where
  "js_concat xs d = (case d of JArr ys \<Rightarrow> xs @ ys | _ \<Rightarrow> xs @ [d])"

text \<open>Lines 133--146: the baseline ids of a one-to-many field. When \<^verbatim>\<open>key in fieldCache\<close>
  holds for a key that the cache does not have, \<^verbatim>\<open>fieldCache[key]\<close> is a member of
  \<^verbatim>\<open>Object.prototype\<close>.\<close>

definition baseline_ids ::
  "api \<Rightarrow> string \<Rightarrow> jsval \<Rightarrow> string \<Rightarrow> engine \<Rightarrow> (error + jsval list) \<times> engine" where
  "baseline_ids api coll pkFinal key s =
     (if \<not> strict_eq pkFinal (JStr ''+'') then
        (if js_has (fieldCache s) key then
           (if reads_prototype (fieldCache s) key then (Inl Unsupported, s)
            else (Inr (js_concat [] (obj_get (fieldCache s) key)), s))
         else
           (case fetch api (GetField (''items/'' @ coll @ ''/'' @ to_string pkFinal) key) s of
              (Rejected, s') \<Rightarrow> (Inl FetchFailure, s')
            | (Reply d, s') \<Rightarrow>
                (Inr (js_concat [] d), s'\<lparr>fieldCache := obj_set (fieldCache s') key d\<rparr>)))
      else (Inr [], s))"

text \<open>\<^verbatim>\<open>us.map(({ id }) => id)\<close>: destructuring \<^verbatim>\<open>null\<close> throws.\<close>

fun ids_of :: "jsval list \<Rightarrow> error + jsval list" where
  "ids_of [] = Inr []"
| "ids_of (u # us) =
     (if nullish u then Inl TypeError
      else case ids_of us of Inl e \<Rightarrow> Inl e | Inr r \<Rightarrow> Inr (get_prop u ''id'' # r))"

text \<open>\<^verbatim>\<open>fieldChanges.update.map(({ id }) => id)\<close> for a truthy \<^verbatim>\<open>update\<close>: only an array
  has \<^verbatim>\<open>map\<close>.\<close>

definition mapped_ids :: "jsval \<Rightarrow> error + jsval list" where
  "mapped_ids u = (case u of JArr us \<Rightarrow> ids_of us | _ \<Rightarrow> Inl TypeError)"

definition array_includes :: "jsval list \<Rightarrow> jsval \<Rightarrow> bool" where
  "array_includes xs x = list_ex (\<lambda>y. strict_eq y x) xs"

text \<open>\<^verbatim>\<open>d.includes(x)\<close>: of an array, of a string (which converts \<^verbatim>\<open>x\<close> to a string), and a
  \<^verbatim>\<open>TypeError\<close> on any other truthy value.\<close>

definition js_includes :: "jsval \<Rightarrow> jsval \<Rightarrow> error + bool" where
  "js_includes d x =
     (case d of
        JArr ds \<Rightarrow> Inr (array_includes ds x)
      | JStr s \<Rightarrow> Inr (str_includes s (to_string x))
      | _ \<Rightarrow> Inl TypeError)"

fun filter_not_included :: "jsval \<Rightarrow> jsval list \<Rightarrow> error + jsval list" where
  "filter_not_included d [] = Inr []"
| "filter_not_included d (x # xs) =
     (case js_includes d x of
        Inl e \<Rightarrow> Inl e
      | Inr b \<Rightarrow>
          (case filter_not_included d xs of
             Inl e \<Rightarrow> Inl e
           | Inr r \<Rightarrow> Inr (if b then r else x # r)))"

text \<open>Lines 148--151.\<close>

definition drop_updated :: "jsval \<Rightarrow> jsval list \<Rightarrow> error + jsval list" where
  "drop_updated fieldChanges arrayOfIds =
     (if truthy (get_prop fieldChanges ''update'') then
        (case mapped_ids (get_prop fieldChanges ''update'') of
           Inl e \<Rightarrow> Inl e
         | Inr updatedIds \<Rightarrow> Inr (filter (\<lambda>i. \<not> array_includes updatedIds i) arrayOfIds))
      else Inr arrayOfIds)"

text \<open>Lines 153--155.\<close>

definition drop_deleted :: "jsval \<Rightarrow> jsval list \<Rightarrow> error + jsval list" where
  "drop_deleted fieldChanges arrayOfIds =
     (if truthy (get_prop fieldChanges ''delete'')
        then filter_not_included (get_prop fieldChanges ''delete'') arrayOfIds
      else Inr arrayOfIds)"

text \<open>Lines 158--160.\<close>

definition append_updated :: "jsval \<Rightarrow> jsval list \<Rightarrow> error + jsval list" where
  "append_updated fieldChanges arrayOfIds =
     (if truthy (get_prop fieldChanges ''update'') then
        (case mapped_ids (get_prop fieldChanges ''update'') of
           Inl e \<Rightarrow> Inl e
         | Inr us \<Rightarrow> Inr (arrayOfIds @ us))
      else Inr arrayOfIds)"

text \<open>The ids to resolve (lines 105--160), after normalization.\<close>

definition collect_ids ::
  "api \<Rightarrow> string \<Rightarrow> jsval \<Rightarrow> bool \<Rightarrow> jsval \<Rightarrow> string \<Rightarrow> engine
     \<Rightarrow> (error + jsval list) \<times> engine" where
  "collect_ids api coll pkFinal isM2O fieldChanges key s =
     (if isM2O then (append_updated fieldChanges [], s)
      else
        and_then (baseline_ids api coll pkFinal key s) (\<lambda>ids1 s1.
          (case drop_updated fieldChanges ids1 of
             Inl e \<Rightarrow> (Inl e, s1)
           | Inr ids2 \<Rightarrow>
               (case drop_deleted fieldChanges ids2 of
                  Inl e \<Rightarrow> (Inl e, s1)
                | Inr ids3 \<Rightarrow> (append_updated fieldChanges ids3, s1)))))"

definition related_of :: "bool \<Rightarrow> relation \<Rightarrow> string option" where
  "related_of isM2O rel = (if isM2O then related_collection rel else Some (collection rel))"

definition items_path :: "string \<Rightarrow> string" where
  "items_path rc = (if rc = ''directus_users'' then ''/users'' else ''items/'' @ rc)"

text \<open>\<^verbatim>\<open>itemCache[rc]\<close>, an object of items keyed by id.\<close>

definition cache_get :: "(string \<times> obj) list \<Rightarrow> string \<Rightarrow> obj" where
  "cache_get ic rc = (case map_of ic rc of None \<Rightarrow> [] | Some items \<Rightarrow> items)"

text \<open>The test of line 168, for a collection name that \<^verbatim>\<open>Object.prototype\<close> does not
  have (for another one \<^verbatim>\<open>itemCache[rc]\<close> is a built-in function).\<close>

definition cache_hit :: "(string \<times> obj) list \<Rightarrow> string \<Rightarrow> jsval list \<Rightarrow> bool" where
  "cache_hit ic rc ids =
     (js_has ic rc \<and> list_all (\<lambda>i. js_has (cache_get ic rc) (to_string i)) ids)"

text \<open>An entity that line 179 or 181 stores as an own property of the cache object. The
  assignment \<^verbatim>\<open>itemCache[rc][item.id] = item\<close> for an id that reads \<^verbatim>\<open>__proto__\<close> goes
  through the setter of \<^verbatim>\<open>Object.prototype\<close> and replaces the prototype of the cache
  object instead.\<close>

definition storable :: "jsval \<Rightarrow> bool" where
  "storable item = (to_string (get_prop item ''id'') \<noteq> ''__proto__'')"

text \<open>The items handed to \<^verbatim>\<open>data.map\<close> (line 177). The model follows the run only when
  every item is storable.\<close>

definition deliver :: "jsval list \<Rightarrow> engine \<Rightarrow> (error + jsval list) \<times> engine" where
  "deliver items s = (if list_all storable items then (Inr items, s) else (Inl Unsupported, s))"

text \<open>Lines 178--182, for a collection name that \<^verbatim>\<open>Object.prototype\<close> does not have and
  a storable item (\<open>load_items\<close> has ended the run otherwise): \<^verbatim>\<open>rc in itemCache\<close> is then
  the test for an own property, and the assignment adds or replaces one.\<close>

definition cache_item :: "string \<Rightarrow> jsval \<Rightarrow> (string \<times> obj) list \<Rightarrow> (string \<times> obj) list" where
  "cache_item rc item ic =
     (if has_key ic rc
        then obj_set ic rc (obj_set (cache_get ic rc) (to_string (get_prop item ''id'')) item)
      else obj_set ic rc [(to_string (get_prop item ''id''), item)])"

text \<open>\<^verbatim>\<open>us.find(({ id }) => itemId === id)\<close>\<close>

fun find_by_id :: "jsval \<Rightarrow> jsval list \<Rightarrow> error + jsval" where
  "find_by_id itemId [] = Inr JUndefined"
| "find_by_id itemId (u # us) =
     (if nullish u then Inl TypeError
      else if strict_eq itemId (get_prop u ''id'') then Inr u
      else find_by_id itemId us)"

text \<open>\<^verbatim>\<open>fieldChanges.update?.find(...)\<close>: skipped on a nullish \<^verbatim>\<open>update\<close>; only an array
  has \<^verbatim>\<open>find\<close>.\<close>

definition find_update :: "jsval \<Rightarrow> jsval \<Rightarrow> error + jsval" where
  "find_update fieldChanges itemId =
     (if nullish (get_prop fieldChanges ''update'') then Inr JUndefined
      else case get_prop fieldChanges ''update'' of
             JArr us \<Rightarrow> find_by_id itemId us
           | _ \<Rightarrow> Inl TypeError)"

text \<open>Lines 177--188, the callback of \<^verbatim>\<open>data.map\<close> run over the items: reading
  \<^verbatim>\<open>item.id\<close> of a nullish item throws before the cache is written.\<close>

fun merge_items ::
  "string \<Rightarrow> jsval \<Rightarrow> jsval list \<Rightarrow> engine \<Rightarrow> (error + jsval list) \<times> engine" where
  "merge_items rc fieldChanges [] s = (Inr [], s)"
| "merge_items rc fieldChanges (item # items) s =
     (if nullish item then (Inl TypeError, s)
      else
        (case find_update fieldChanges (get_prop item ''id'') of
           Inl e \<Rightarrow> (Inl e, s\<lparr>itemCache := cache_item rc item (itemCache s)\<rparr>)
         | Inr u \<Rightarrow>
             and_then
               (merge_items rc fieldChanges items
                  (s\<lparr>itemCache := cache_item rc item (itemCache s)\<rparr>))
               (\<lambda>rest s'. (Inr (JObj (spread (spread [] item) u) # rest), s'))))"

text \<open>Lines 167--174: the items come from \<^verbatim>\<open>itemCache\<close> when the test of line 168 finds
  every id, and from the API otherwise. (\<^verbatim>\<open>data.map\<close> of line 177 throws when the reply is
  not an array.) When the test finds an id that the cache object does not have,
  \<^verbatim>\<open>itemCache[rc][id]\<close> is a member of \<^verbatim>\<open>Object.prototype\<close>.\<close>

definition load_items ::
  "api \<Rightarrow> string \<Rightarrow> jsval list \<Rightarrow> engine \<Rightarrow> (error + jsval list) \<times> engine" where
  "load_items api rc arrayOfIds s =
     (if inherited rc then (Inl Unsupported, s)
      else if cache_hit (itemCache s) rc arrayOfIds then
        (if list_ex (\<lambda>i. reads_prototype (cache_get (itemCache s) rc) (to_string i)) arrayOfIds
           then (Inl Unsupported, s)
         else deliver (map (\<lambda>i. obj_get (cache_get (itemCache s) rc) (to_string i)) arrayOfIds) s)
      else
        (case fetch api (GetItems (items_path rc) (join_ids arrayOfIds)) s of
           (Rejected, s') \<Rightarrow> (Inl FetchFailure, s')
         | (Reply d, s') \<Rightarrow>
             (case d of
                JArr items \<Rightarrow> deliver items s'
              | _ \<Rightarrow> (Inl TypeError, s'))))"

text \<open>Lines 162--190.\<close>

definition resolve_items ::
  "api \<Rightarrow> bool \<Rightarrow> relation \<Rightarrow> jsval \<Rightarrow> jsval list \<Rightarrow> engine
     \<Rightarrow> (error + jsval list) \<times> engine" where
  "resolve_items api isM2O rel fieldChanges arrayOfIds s =
     (if arrayOfIds \<noteq> [] then
        (case related_of isM2O rel of
           None \<Rightarrow> (Inr [], s)
         | Some rc \<Rightarrow>
             if rc = [] then (Inr [], s)
             else and_then (load_items api rc arrayOfIds s)
                    (\<lambda>data s'. merge_items rc fieldChanges data s'))
      else (Inr [], s))"

text \<open>Lines 193--195.\<close>

definition append_created :: "jsval \<Rightarrow> jsval list \<Rightarrow> jsval list" where
  "append_created fieldChanges arrayOfData =
     (if truthy (get_prop fieldChanges ''create'')
        then js_concat arrayOfData (get_prop fieldChanges ''create'')
      else arrayOfData)"

text \<open>Line 197.\<close>

definition field_value :: "bool \<Rightarrow> jsval list \<Rightarrow> jsval" where
  "field_value isM2O arrayOfData =
     (if isM2O then (case arrayOfData of [] \<Rightarrow> JUndefined | d # ds \<Rightarrow> d)
      else JArr arrayOfData)"

text \<open>\<^verbatim>\<open>valObj[fieldName!] ?? { create: [], update: [], delete: [] }\<close>\<close>

definition raw_changes :: "obj \<Rightarrow> string \<Rightarrow> jsval" where
  "raw_changes valObj fieldName =
     (if nullish (obj_get valObj fieldName) then default_changes else obj_get valObj fieldName)"

text \<open>The body of the loop (lines 96--197) for a key with a relation that the template
  references; the result is the value stored in \<^verbatim>\<open>relationalData[key]\<close>. The reads
  \<^verbatim>\<open>valObj[fieldName]\<close> and \<^verbatim>\<open>oldValObj[key]\<close> are those of \<open>obj_get\<close>; the loop below
  calls the body only where they are the reads of the code.\<close>

definition resolve_field ::
  "api \<Rightarrow> string \<Rightarrow> jsval \<Rightarrow> obj \<Rightarrow> obj \<Rightarrow> relation \<Rightarrow> string \<Rightarrow> engine
     \<Rightarrow> (error + jsval) \<times> engine" where
  "resolve_field api coll pkFinal valObj oldValObj rel key s =
     (let isM2O = (collection rel = coll);
          norm = normalize_changes isM2O (raw_changes valObj (field_name isM2O rel))
                   (obj_get oldValObj key) s
      in and_then (collect_ids api coll pkFinal isM2O (fst norm) key (snd norm))
           (\<lambda>arrayOfIds s1.
              and_then (resolve_items api isM2O rel (fst norm) arrayOfIds s1)
                (\<lambda>arrayOfData s2.
                   (Inr (field_value isM2O (append_created (fst norm) arrayOfData)), s2))))"

text \<open>The loop over \<^verbatim>\<open>Object.keys(valObj)\<close> (lines 89--198), one field after the other.
  The model does not follow the body when \<^verbatim>\<open>valObj[fieldName]\<close> (line 99) is a member of
  \<^verbatim>\<open>Object.prototype\<close>, nor for the key \<^verbatim>\<open>__proto__\<close>, for which line 112 may read the
  prototype and the assignment of line 197 goes through the setter.\<close>

fun resolve_fields ::
  "api \<Rightarrow> props \<Rightarrow> jsval \<Rightarrow> obj \<Rightarrow> obj \<Rightarrow> string list \<Rightarrow> obj \<Rightarrow> engine
     \<Rightarrow> (error + obj) \<times> engine" where
  "resolve_fields api p pkFinal valObj oldValObj [] relationalData s = (Inr relationalData, s)"
| "resolve_fields api p pkFinal valObj oldValObj (key # keys) relationalData s =
     (case find (\<lambda>rel. relation_mentions rel key) (relations p) of
        None \<Rightarrow> resolve_fields api p pkFinal valObj oldValObj keys relationalData s
      | Some rel \<Rightarrow>
          if \<not> checkFieldInTemplate (template p) key
            then resolve_fields api p pkFinal valObj oldValObj keys relationalData s
          else if key = ''__proto__''
                  \<or> reads_prototype valObj (field_name (collection rel = collectionName p) rel)
            then (Inl Unsupported, s)
          else
            (case resolve_field api (collectionName p) pkFinal valObj oldValObj rel key s of
               (Inl e, s') \<Rightarrow> (Inl e, s')
             | (Inr v, s') \<Rightarrow>
                 resolve_fields api p pkFinal valObj oldValObj keys
                   (obj_set relationalData key v) s'))"

text \<open>Lines 80--84: \<^verbatim>\<open>key in valObj\<close> holds for every member of \<^verbatim>\<open>Object.prototype\<close>
  too, so a removed key with such a name gets no \<^verbatim>\<open>null\<close>.\<close>

definition add_removed_keys :: "obj \<Rightarrow> obj \<Rightarrow> obj" where
  "add_removed_keys oldValObj valObj =
     foldl (\<lambda>v key. if js_has v key then v else obj_set v key JNull) valObj (map fst oldValObj)"

text \<open>The callback of \<^verbatim>\<open>watch\<close> (lines 73--201). \<open>val\<close> and \<open>oldVal\<close> stand for the
  parsed strings; \<open>oldVal = None\<close> is the first invocation (\<^verbatim>\<open>immediate: true\<close>), where
  \<^verbatim>\<open>oldVal\<close> is \<^verbatim>\<open>undefined\<close>. On an error the promise is rejected and \<^verbatim>\<open>finalValues\<close>
  keeps its value, while the caches keep what was written before the error. A record
  with the own key \<^verbatim>\<open>__proto__\<close> (\<^verbatim>\<open>JSON.parse\<close> creates it as a data property) is not
  followed beyond the gate: read from the other record, the key yields the prototype.\<close>

definition watch_callback ::
  "api \<Rightarrow> props \<Rightarrow> obj \<Rightarrow> obj option \<Rightarrow> engine \<Rightarrow> outcome \<times> engine" where
  "watch_callback api p val oldVal s =
     (let oldValObj = (case oldVal of None \<Rightarrow> [] | Some ov \<Rightarrow> ov) in
      if \<not> shouldUpdate (template p) (computedField p) val oldValObj then (Skipped, s)
      else if has_key val ''__proto__'' \<or> has_key oldValObj ''__proto__'' then (Aborted Unsupported, s)
      else
        (let valObj = add_removed_keys oldValObj val;
             pkFinal = (if truthy (obj_get valObj ''id'') then obj_get valObj ''id'' else pk p)
         in case resolve_fields api p pkFinal valObj oldValObj (map fst valObj) [] s of
              (Inl e, s') \<Rightarrow> (Aborted e, s')
            | (Inr relationalData, s') \<Rightarrow>
                (Emitted,
                 s'\<lparr>finalValues :=
                      obj_set (spread (spread [] (JObj valObj)) (JObj relationalData))
                        ''__currentUser'' (currentUser p)\<rparr>)))"

section \<open>Path lookup\<close>

record lookup_result =
  result_value :: jsval
  found :: bool

text \<open>The loop of \<^verbatim>\<open>findValueByPath\<close> over the segments of the path. A segment found on
  a prototype only leads to a built-in function.\<close>

fun find_segments :: "jsval \<Rightarrow> string list \<Rightarrow> error + lookup_result" where
  "find_segments v [] = Inr \<lparr>result_value = v, found = True\<rparr>"
| "find_segments v (i # segs) =
     (case js_in i v of
        Inl e \<Rightarrow> Inl e
      | Inr True \<Rightarrow>
          if own_key v i then find_segments (get_prop v i) segs else Inl Unsupported
      | Inr False \<Rightarrow> Inr \<lparr>result_value = JNull, found = False\<rparr>)"

definition findValueByPath :: "obj \<Rightarrow> string \<Rightarrow> error + lookup_result" where
  "findValueByPath ob path = find_segments (JObj ob) (split_sep CHR ''.'' path)"

section \<open>Records obtained from \<^verbatim>\<open>JSON.parse\<close>\<close>



section \<open>Notions used in the statements\<close>


text \<open>The pending partial data of an entity: the first element of the update list with
  the entity's id, or \<^verbatim>\<open>undefined\<close>.\<close>

definition in_flight :: "jsval list \<Rightarrow> jsval \<Rightarrow> jsval" where
  "in_flight us itemId =
     (case find (\<lambda>u. strict_eq itemId (get_prop u ''id'')) us of
        None \<Rightarrow> JUndefined
      | Some u \<Rightarrow> u)"

text \<open>The entity with its pending partial data merged over it: \<^verbatim>\<open>{...item, ...partial}\<close>.\<close>

definition merged :: "jsval list \<Rightarrow> jsval \<Rightarrow> jsval" where
  "merged us item = JObj (spread (spread [] item) (in_flight us (get_prop item ''id'')))"

text \<open>The keys of an object as JavaScript keeps them: no key twice, the array indices
  first and in ascending order.\<close>

definition js_ordered :: "(string \<times> 'v) list \<Rightarrow> bool" where
  "js_ordered ps =
     (distinct (map fst ps) \<and> sorted_wrt (\<lambda>a b. \<not> key_before (fst b) (fst a)) ps)"

text \<open>The body of a placeholder as the pattern \<^verbatim>\<open>{{.*?}}\<close> takes it: every character is
  accepted by the dot, and no \<^verbatim>\<open>}}\<close> begins inside the body (not even with its last
  character), so that the \<^verbatim>\<open>}}\<close> after the body is the first one after the opening
  braces.\<close>

definition lazy_body :: "(char \<Rightarrow> bool) \<Rightarrow> string \<Rightarrow> bool" where
  "lazy_body dot body = (list_all dot body \<and> \<not> str_includes (body @ ''}'') ''}}'')"

text \<open>The two transitions of lines 112 and 126 that reset the caches.\<close>

definition resets :: "bool \<Rightarrow> jsval \<Rightarrow> jsval \<Rightarrow> bool" where
  "resets isM2O raw oldRaw =
     (if isM2O then (typeof raw = ''number'' \<or> typeof raw = ''string'') \<and> typeof oldRaw = ''object''
      else instanceof_Array raw \<and> \<not> instanceof_Array oldRaw)"

text \<open>No field that the loop resolves meets a reset when the old record is the new one.
  This holds whenever each such key is the field name of its relation.\<close>

definition stable_shapes :: "props \<Rightarrow> obj \<Rightarrow> bool" where
  "stable_shapes p val =
     list_all
       (\<lambda>key. case find (\<lambda>rel. relation_mentions rel key) (relations p) of
                 None \<Rightarrow> True
               | Some rel \<Rightarrow>
                   \<not> resets (collection rel = collectionName p)
                       (obj_get val (field_name (collection rel = collectionName p) rel))
                       (obj_get val key))
       (map fst val)"

subsection \<open>A server and the caches it fills\<close>

text \<open>The key under which lines 179 and 181 store an entity.\<close>

definition id_key :: "jsval \<Rightarrow> string" where
  "id_key item = to_string (get_prop item ''id'')"

text \<open>An id that \<^verbatim>\<open>ids.join(',')\<close> transmits as it is: a number, or a string without a
  comma.\<close>

definition plain_id :: "jsval \<Rightarrow> bool" where
  "plain_id i = (case i of JNum n \<Rightarrow> True | JStr s \<Rightarrow> CHR '','' \<notin> set s | _ \<Rightarrow> False)"

text \<open>A server with the entities \<open>ent\<close>: a read of entities is answered with the entity of
  each id of the filter, in the order of the filter, where \<open>ent path k\<close> is the entity at
  \<open>path\<close> whose id reads \<open>k\<close>; a single-field read is answered with plain ids.\<close>

definition entity_server :: "api \<Rightarrow> (string \<Rightarrow> string \<Rightarrow> jsval) \<Rightarrow> bool" where
  "entity_server api ent =
     ((\<forall>log path q d. api log (GetItems path q) = Reply d \<longrightarrow>
          d = JArr (map (ent path) (split_sep CHR '','' q))
          \<and> (\<forall>k\<in>set (split_sep CHR '','' q). \<not> nullish (ent path k) \<and> id_key (ent path k) = k))
      \<and> (\<forall>log path key d. api log (GetField path key) = Reply d \<longrightarrow>
            list_all plain_id (js_concat [] d)))"

text \<open>The caches hold what such a server has delivered: every cached entity is the
  server's entity of its key, and every cached baseline is a list of plain ids. The caches
  of a fresh session do (\<open>served_init\<close>).\<close>

definition served :: "(string \<Rightarrow> string \<Rightarrow> jsval) \<Rightarrow> engine \<Rightarrow> bool" where
  "served ent s =
     ((\<forall>rc k. has_key (cache_get (itemCache s) rc) k \<longrightarrow>
          obj_get (cache_get (itemCache s) rc) k = ent (items_path rc) k
          \<and> \<not> nullish (ent (items_path rc) k) \<and> id_key (ent (items_path rc) k) = k)
      \<and> (\<forall>key. has_key (fieldCache s) key \<longrightarrow>
            list_all plain_id (js_concat [] (obj_get (fieldCache s) key))))"

text \<open>The caches of \<open>t\<close> have every entry of the field cache of \<open>s\<close> and every key of
  its item cache.\<close>

definition cache_extends :: "engine \<Rightarrow> engine \<Rightarrow> bool" where
  "cache_extends s t =
     ((\<forall>k. has_key (fieldCache s) k \<longrightarrow>
          has_key (fieldCache t) k \<and> obj_get (fieldCache t) k = obj_get (fieldCache s) k)
      \<and> (\<forall>rc k. has_key (cache_get (itemCache s) rc) k \<longrightarrow>
            has_key (cache_get (itemCache t) rc) k))"

text \<open>The keys that the loop resolves: those with a relation that the template
  references.\<close>

definition resolved :: "props \<Rightarrow> string \<Rightarrow> bool" where
  "resolved p key =
     (case find (\<lambda>rel. relation_mentions rel key) (relations p) of
        None \<Rightarrow> False
      | Some rel \<Rightarrow> checkFieldInTemplate (template p) key)"

text \<open>The field of the key meets a reset transition (line 112 or 126).\<close>

definition field_resets :: "props \<Rightarrow> obj \<Rightarrow> obj \<Rightarrow> string \<Rightarrow> bool" where
  "field_resets p valObj oldValObj key =
     (case find (\<lambda>rel. relation_mentions rel key) (relations p) of
        None \<Rightarrow> False
      | Some rel \<Rightarrow>
          resets (collection rel = collectionName p)
            (obj_get valObj (field_name (collection rel = collectionName p) rel))
            (obj_get oldValObj key))"

text \<open>No field that the loop resolves after the first one meets a reset: what the loop has
  cached is not thrown away later in the same run.\<close>

definition no_late_reset :: "props \<Rightarrow> obj \<Rightarrow> obj \<Rightarrow> bool" where
  "no_late_reset p valObj oldValObj =
     list_all (\<lambda>key. \<not> field_resets p valObj oldValObj key)
       (tl (filter (resolved p) (map fst valObj)))"

text \<open>The mutation that lines 108--124 make of a raw value; it depends neither on the
  previous raw value nor on the state (\<open>normalize_fst\<close>).\<close>

definition normalized :: "bool \<Rightarrow> jsval \<Rightarrow> jsval" where
  "normalized isM2O fieldChanges = fst (normalize_changes isM2O fieldChanges JUndefined (init_engine JNull))"

text \<open>The ids of the update lists of the relational fields of the record are plain.\<close>

definition plain_updates :: "props \<Rightarrow> obj \<Rightarrow> bool" where
  "plain_updates p val =
     list_all
       (\<lambda>key. case find (\<lambda>rel. relation_mentions rel key) (relations p) of
                 None \<Rightarrow> True
               | Some rel \<Rightarrow>
                   (case append_updated
                           (normalized (collection rel = collectionName p)
                              (raw_changes val (field_name (collection rel = collectionName p) rel)))
                           [] of
                      Inl e \<Rightarrow> True
                    | Inr us \<Rightarrow> list_all plain_id us))
       (map fst val)"

section \<open>Example sessions\<close>

text \<open>Concrete sessions at which the theorems below are instantiated. \<open>no_api\<close> rejects
  every request.\<close>

definition no_api :: api where
  "no_api log req = Rejected"

definition title_props :: props where
  "title_props =
     \<lparr>relations = [], collectionName = ''posts'', computedField = ''result'', pk = JNum 1,
      template = ''{{author}}'', currentUser = JNull\<rparr>"

definition computed_props :: props where
  "computed_props =
     \<lparr>relations = [], collectionName = ''posts'', computedField = ''c'', pk = JNum 1,
      template = ''{{x}}'', currentUser = JNull\<rparr>"

definition computed_state :: engine where
  "computed_state =
     snd (watch_callback no_api computed_props [(''c'', JNum 1)] None (init_engine JNull))"

text \<open>A blog: the edited collection \<^verbatim>\<open>posts\<close> has the many-to-one field \<^verbatim>\<open>author\<close>
  (to \<^verbatim>\<open>directus_users\<close>) and the one-to-many field \<^verbatim>\<open>comments\<close> (the collection
  \<^verbatim>\<open>comments\<close> points back with its field \<^verbatim>\<open>post\<close>). The record edited is post 10,
  whose stored comments are 1, 2 and 3.\<close>

definition author_relation :: relation where
  "author_relation =
     \<lparr>collection = ''posts'', related_collection = Some ''directus_users'',
      meta = Some \<lparr>one_field = None, many_field = Some ''author''\<rparr>\<rparr>"

definition comments_relation :: relation where
  "comments_relation =
     \<lparr>collection = ''comments'', related_collection = Some ''posts'',
      meta = Some \<lparr>one_field = Some ''comments'', many_field = Some ''post''\<rparr>\<rparr>"

definition blog_props :: props where
  "blog_props =
     \<lparr>relations = [author_relation, comments_relation], collectionName = ''posts'',
      computedField = ''summary'', pk = JNum 10,
      template = ''{{author.name}} ({{comments}})'', currentUser = JNull\<rparr>"

definition comment :: "int \<Rightarrow> string \<Rightarrow> jsval" where
  "comment n title = JObj [(''id'', JNum n), (''title'', JStr title)]"

definition user7 :: jsval where
  "user7 = JObj [(''id'', JNum 7), (''name'', JStr ''Ann'')]"

definition blog_api :: api where
  "blog_api log req =
     (if req = GetField ''items/posts/10'' ''comments''
        then Reply (JArr [JNum 1, JNum 2, JNum 3])
      else if req = GetItems ''items/comments'' ''1,2''
        then Reply (JArr [comment 1 ''a'', comment 2 ''b''])
      else if req = GetItems ''items/comments'' ''1,2,3''
        then Reply (JArr [comment 1 ''a'', comment 2 ''b'', comment 3 ''c''])
      else if req = GetItems ''/users'' ''7''
        then Reply (JArr [user7])
      else Rejected)"

text \<open>The entities of the blog's server, by path and id.\<close>

definition blog_entities :: "string \<Rightarrow> string \<Rightarrow> jsval" where
  "blog_entities path k =
     (if path = ''items/comments'' \<and> k = ''1'' then comment 1 ''a''
      else if path = ''items/comments'' \<and> k = ''2'' then comment 2 ''b''
      else if path = ''items/comments'' \<and> k = ''3'' then comment 3 ''c''
      else if path = ''/users'' \<and> k = ''7'' then user7
      else JObj [(''id'', JStr k)])"

text \<open>The post while its comments are edited (comment 2 retitled, comment 3 removed), and
  after the save, when the form reloads and the field holds the stored ids again.
  \<open>blog_state\<close> is the state after the first invocation, on the edited post.\<close>

definition comments_changes :: obj where
  "comments_changes =
     [(''create'', JArr []),
      (''update'', JArr [JObj [(''id'', JNum 2), (''title'', JStr ''new'')]]),
      (''delete'', JArr [JNum 3])]"

definition edited_post :: obj where
  "edited_post = [(''title'', JStr ''x''), (''comments'', JObj comments_changes)]"

definition saved_post :: obj where
  "saved_post = [(''title'', JStr ''x''), (''comments'', JArr [JNum 1, JNum 2, JNum 3])]"

definition blog_state :: engine where
  "blog_state = snd (watch_callback blog_api blog_props edited_post None (init_engine JNull))"


text \<open>Raw values of the many-to-one field \<^verbatim>\<open>author\<close>: user 7 with a pending note, and a
  user still to be created.\<close>

definition noted_author :: obj where
  "noted_author = [(''id'', JNum 7), (''note'', JStr ''x'')]"

definition new_author :: obj where
  "new_author = [(''name'', JStr ''Bob'')]"



text \<open>A post with two one-to-many fields, \<^verbatim>\<open>comments\<close> and \<^verbatim>\<open>tags\<close>, as the form loads it:
  both fields hold the stored ids. The API answers every request of the session.
  \<open>lists_state\<close> is the state after the first invocation.\<close>

definition tags_relation :: relation where
  "tags_relation =
     \<lparr>collection = ''tags'', related_collection = Some ''posts'',
      meta = Some \<lparr>one_field = Some ''tags'', many_field = Some ''post''\<rparr>\<rparr>"

definition lists_props :: props where
  "lists_props =
     \<lparr>relations = [comments_relation, tags_relation], collectionName = ''posts'',
      computedField = ''summary'', pk = JNum 10,
      template = ''{{comments}} {{tags}}'', currentUser = JNull\<rparr>"

definition lists_post :: obj where
  "lists_post = [(''comments'', JArr [JNum 1]), (''tags'', JArr [JNum 5])]"

definition lists_api :: api where
  "lists_api log req =
     (if req = GetField ''items/posts/10'' ''comments'' then Reply (JArr [JNum 1])
      else if req = GetField ''items/posts/10'' ''tags'' then Reply (JArr [JNum 5])
      else if req = GetItems ''items/comments'' ''1'' then Reply (JArr [comment 1 ''a''])
      else if req = GetItems ''items/tags'' ''5''
        then Reply (JArr [JObj [(''id'', JNum 5), (''name'', JStr ''t'')]])
      else Rejected)"

definition lists_state :: engine where
  "lists_state = snd (watch_callback lists_api lists_props lists_post None (init_engine JNull))"





text \<open>The post while comment 1 is retitled, so that its id moves to the end of the ids to
  resolve, and a server that answers a read of entities in the order of their ids, whatever
  the order of the filter.\<close>

definition retitled_post :: obj where
  "retitled_post =
     [(''comments'',
       JObj [(''update'', JArr [JObj [(''id'', JNum 1), (''title'', JStr ''new'')]])])]"

definition sorting_api :: api where
  "sorting_api log req =
     (if req = GetField ''items/posts/10'' ''comments''
        then Reply (JArr [JNum 1, JNum 2, JNum 3])
      else if req = GetItems ''items/comments'' ''2,3,1''
        then Reply (JArr [comment 1 ''a'', comment 2 ''b'', comment 3 ''c''])
      else Rejected)"

section \<open>Evaluation rules\<close>

lemmas js_eval =
  obj_set_def has_key_def js_has_def reads_prototype_def inherited_def Object_prototype_names_def
  obj_get_def key_before_def array_index_def digit_val_def
  strict_eq_def nullish_def instanceof_Array_def spread_def
  show_int_def show_nat.simps digit_char_def json_quote_def json_quote_char_def join_ids_def

lemmas template_eval =
  checkFieldInTemplate_def match_at_def str_starts_with_def regexp_dot_def is_line_terminator_def

lemmas gate_eval = shouldUpdate_def changedFields_def

lemmas callback_eval =
  watch_callback_def add_removed_keys_def init_engine_def relation_mentions_def

section \<open>Objects\<close>

lemma has_key_iff: "has_key ps k \<longleftrightarrow> k \<in> fst ` set ps"
  by (simp add: has_key_def map_of_eq_None_iff)

lemma map_of_key_replace:
  "map_of ps k \<noteq> None \<Longrightarrow> map_of (key_replace k v ps) k' = (if k' = k then Some v else map_of ps k')"
  by (induction ps) (auto split: if_splits)

lemma map_of_key_insert:
  "map_of ps k = None \<Longrightarrow> map_of (key_insert k v ps) k' = (if k' = k then Some v else map_of ps k')"
  by (induction ps) (auto split: if_splits)

lemma map_of_obj_set: "map_of (obj_set ps k v) = (map_of ps)(k \<mapsto> v)"
  by (rule ext) (simp add: obj_set_def has_key_def map_of_key_replace map_of_key_insert)

lemma keys_obj_set: "fst ` set (obj_set ps k v) = insert k (fst ` set ps)"
proof -
  have "dom (map_of (obj_set ps k v)) = insert k (dom (map_of ps))"
    by (simp add: map_of_obj_set)
  then show ?thesis by (simp add: dom_map_of_conv_image_fst)
qed

lemma obj_get_obj_set: "obj_get (obj_set ps k v) k' = (if k' = k then v else obj_get ps k')"
  by (simp add: obj_get_def map_of_obj_set)

lemma has_key_obj_set: "has_key (obj_set ps k v) k' \<longleftrightarrow> k' = k \<or> has_key ps k'"
  by (simp add: has_key_def map_of_obj_set)

lemma keys_foldl_obj_set:
  "fst ` set (foldl (\<lambda>acc (k, x). obj_set acc k x) base qs) = fst ` set base \<union> fst ` set qs"
proof (induction qs arbitrary: base)
  case Nil
  then show ?case by simp
next
  case (Cons q qs)
  obtain k v where q: "q = (k, v)" by (cases q)
  show ?case unfolding q by (simp add: Cons.IH keys_obj_set)
qed

lemma keys_spread: "fst ` set (spread base v) = fst ` set base \<union> fst ` set (own_props v)"
  by (simp add: spread_def keys_foldl_obj_set)

lemma map_of_foldl_obj_set:
  "map_of (foldl (\<lambda>acc (k, x). obj_set acc k x) base qs) k =
     (case map_of (rev qs) k of None \<Rightarrow> map_of base k | Some v \<Rightarrow> Some v)"
proof (induction qs arbitrary: base)
  case Nil
  then show ?case by simp
next
  case (Cons q qs)
  obtain k' v' where q: "q = (k', v')" by (cases q)
  show ?case
    by (simp add: Cons.IH q map_of_obj_set map_add_def split: option.splits)
qed

lemma strict_eq_eq: "strict_eq a b \<Longrightarrow> a = b"
  by (cases a) (auto simp: strict_eq_def)


lemma obj_get_undefined: "k \<notin> fst ` set ps \<Longrightarrow> obj_get ps k = JUndefined"
  by (simp add: obj_get_def map_of_eq_None_iff[THEN iffD2])

lemma set_changedFields:
  "set (changedFields cf val oldVal) =
     {k. k \<noteq> cf \<and> JSON_stringify (obj_get val k) \<noteq> JSON_stringify (obj_get oldVal k)}"
proof -
  have keys: "set (map fst (spread (spread [] (JObj oldVal)) (JObj val))) = fst ` set oldVal \<union> fst ` set val"
    by (simp add: keys_spread)
  have "k \<in> fst ` set oldVal \<union> fst ` set val"
    if "JSON_stringify (obj_get val k) \<noteq> JSON_stringify (obj_get oldVal k)" for k
  proof (rule ccontr)
    assume "k \<notin> fst ` set oldVal \<union> fst ` set val"
    then have "obj_get val k = JUndefined" "obj_get oldVal k = JUndefined"
      by (simp_all add: obj_get_undefined)
    with that show False by simp
  qed
  moreover have "\<not> strict_eq (obj_get val k) (obj_get oldVal k)"
    if "JSON_stringify (obj_get val k) \<noteq> JSON_stringify (obj_get oldVal k)" for k
    using that strict_eq_eq by fastforce
  ultimately show ?thesis
    unfolding changedFields_def set_filter keys by blast
qed

section \<open>The gate in terms of the serialized values\<close>

lemma watch_callback_skipped_iff:
  "fst (watch_callback api p val oldVal s) = Skipped \<longleftrightarrow>
     \<not> shouldUpdate (template p) (computedField p) val (case oldVal of None \<Rightarrow> [] | Some ov \<Rightarrow> ov)"
  by (simp add: watch_callback_def Let_def split: prod.splits sum.splits)


lemma shouldUpdate_iff:
  "shouldUpdate T cf val oldVal \<longleftrightarrow>
     (\<forall>k. k \<noteq> cf \<longrightarrow> JSON_stringify (obj_get val k) = JSON_stringify (obj_get oldVal k))
     \<or> (\<exists>k. k \<noteq> cf \<and> JSON_stringify (obj_get val k) \<noteq> JSON_stringify (obj_get oldVal k)
            \<and> checkFieldInTemplate T k)"
proof -
  have e: "changedFields cf val oldVal = [] \<longleftrightarrow>
      (\<forall>k. k \<noteq> cf \<longrightarrow> JSON_stringify (obj_get val k) = JSON_stringify (obj_get oldVal k))"
    using set_changedFields[of cf val oldVal]
    by (metis (mono_tags, lifting) empty_Collect_eq set_empty mem_Collect_eq)
  show ?thesis
    unfolding shouldUpdate_def e list_ex_iff set_changedFields by auto
qed



section \<open>Properties of the engine's steps\<close>

lemmas engine_eval =
  resolve_field_def normalize_changes_def raw_changes_def field_name_def collect_ids_def
  baseline_ids_def fetch_def drop_updated_def drop_deleted_def append_updated_def
  mapped_ids_def array_includes_def js_includes_def resolve_items_def load_items_def related_of_def
  items_path_def cache_hit_def cache_get_def cache_item_def deliver_def storable_def
  find_update_def
  append_created_def field_value_def js_concat_def default_changes_def clear_caches_def
  and_then_def Let_def

lemmas blog_eval =
  blog_props_def author_relation_def comments_relation_def comment_def user7_def blog_api_def
  edited_post_def saved_post_def comments_changes_def

lemma raw_changes_cases:
  "raw_changes valObj f = (if nullish (obj_get valObj f) then default_changes else obj_get valObj f)"
  by (simp add: raw_changes_def)

lemma raw_changes_Array: "instanceof_Array (raw_changes valObj f) = instanceof_Array (obj_get valObj f)"
  by (auto simp: raw_changes_def nullish_def instanceof_Array_def default_changes_def)

lemma raw_changes_typeof_scalar:
  "(typeof (raw_changes valObj f) = ''number'' \<or> typeof (raw_changes valObj f) = ''string'')
     = (typeof (obj_get valObj f) = ''number'' \<or> typeof (obj_get valObj f) = ''string'')"
  by (auto simp: raw_changes_def nullish_def default_changes_def)

lemma normalize_state:
  "snd (normalize_changes isM2O (raw_changes valObj f) oldRaw s) =
     (if (\<not> isM2O \<and> instanceof_Array (obj_get valObj f) \<and> \<not> instanceof_Array oldRaw)
         \<or> (isM2O \<and> (typeof (obj_get valObj f) = ''number'' \<or> typeof (obj_get valObj f) = ''string'')
              \<and> typeof oldRaw = ''object'')
      then s\<lparr>fieldCache := [], itemCache := []\<rparr> else s)"
  using raw_changes_Array[of valObj f] raw_changes_typeof_scalar[of valObj f]
  by (auto simp: normalize_changes_def clear_caches_def)

lemma not_inherited_id [simp]: "\<not> inherited ''id''"
  by (simp add: inherited_def Object_prototype_names_def)

lemma js_has_id [simp]: "js_has ps ''id'' = has_key ps ''id''"
  by (simp add: js_has_def)

lemma js_has_empty [simp]: "js_has [] k = inherited k"
  by (simp add: js_has_def has_key_def)

lemma js_has_plain: "\<not> inherited k \<Longrightarrow> js_has ps k = has_key ps k"
  by (simp add: js_has_def)

lemma and_then_Inr [simp]: "and_then (Inr x, s) f = f x s"
  by (simp add: and_then_def)

lemma and_then_Inl [simp]: "and_then (Inl e, s) f = (Inl e, s)"
  by (simp add: and_then_def)






lemma set_key_insert: "set (key_insert k v ps) = insert (k, v) (set ps)"
  by (induction ps) (auto split: if_splits)

lemma map_of_foldl_add_null:
  "map_of (foldl (\<lambda>v key. if js_has v key then v else obj_set v key JNull) v ks) k =
     (if has_key v k then map_of v k
      else if k \<in> set ks \<and> \<not> inherited k then Some JNull else None)"
proof (induction ks arbitrary: v)
  case Nil
  then show ?case by (simp add: has_key_def)
next
  case (Cons a ks)
  show ?case
  proof (cases "js_has v a")
    case True
    then show ?thesis using Cons.IH[of v] by (auto simp: js_has_def)
  next
    case False
    then show ?thesis using Cons.IH[of "obj_set v a JNull"]
      by (auto simp: js_has_def has_key_obj_set map_of_obj_set)
  qed
qed

lemma map_of_add_removed_keys:
  assumes "k \<in> fst ` set oldValObj" "k \<notin> fst ` set valObj"
  shows "map_of (add_removed_keys oldValObj valObj) k = (if inherited k then None else Some JNull)"
proof -
  have "map_of (add_removed_keys oldValObj valObj) k =
      (if has_key valObj k then map_of valObj k
       else if k \<in> set (map fst oldValObj) \<and> \<not> inherited k then Some JNull else None)"
    unfolding add_removed_keys_def by (rule map_of_foldl_add_null)
  then show ?thesis using assms by (simp add: has_key_iff)
qed

lemma set_foldl_add_null:
  "(k, x) \<in> set (foldl (\<lambda>v key. if js_has v key then v else obj_set v key JNull) v ks) \<Longrightarrow>
     (k, x) \<in> set v \<or> x = JNull"
proof (induction ks arbitrary: v)
  case Nil
  then show ?case by simp
next
  case (Cons a ks)
  show ?case
  proof (cases "js_has v a")
    case True
    then show ?thesis using Cons by simp
  next
    case False
    then have "(k, x) \<in> set (obj_set v a JNull) \<or> x = JNull" using Cons by simp
    then show ?thesis using False by (auto simp: js_has_def obj_set_def set_key_insert)
  qed
qed

lemma add_removed_keys_all_null:
  assumes "k \<notin> fst ` set valObj" "(k, x) \<in> set (add_removed_keys oldValObj valObj)"
  shows "x = JNull"
proof -
  from assms(2) have "(k, x) \<in> set valObj \<or> x = JNull"
    unfolding add_removed_keys_def by (rule set_foldl_add_null)
  moreover have "(k, x) \<notin> set valObj" using assms(1) by force
  ultimately show ?thesis by simp
qed

lemma map_of_rev_all:
  assumes "k \<in> fst ` set ps" "\<forall>x. (k, x) \<in> set ps \<longrightarrow> x = v"
  shows "map_of (rev ps) k = Some v"
proof -
  from assms(1) have "k \<in> fst ` set (rev ps)" by simp
  then have "map_of (rev ps) k \<noteq> None" by (simp add: map_of_eq_None_iff)
  then obtain x where x: "map_of (rev ps) k = Some x" by blast
  then have "(k, x) \<in> set (rev ps)" by (rule map_of_SomeD)
  then have "(k, x) \<in> set ps" by simp
  with assms(2) x show ?thesis by simp
qed

lemma map_of_spread_obj:
  "map_of (spread base (JObj ps)) k =
     (case map_of (rev ps) k of None \<Rightarrow> map_of base k | Some v \<Rightarrow> Some v)"
  by (simp add: spread_def map_of_foldl_obj_set)

lemma resolve_fields_keys:
  "resolve_fields api p pkFinal valObj oldValObj keys rd s = (Inr rd', s') \<Longrightarrow>
     fst ` set rd' \<subseteq> fst ` set rd \<union>
       {k \<in> set keys. find (\<lambda>rel. relation_mentions rel k) (relations p) \<noteq> None
                       \<and> checkFieldInTemplate (template p) k}"
proof (induction keys arbitrary: rd s)
  case Nil
  then show ?case by auto
next
  case (Cons key keys)
  show ?case
  proof (cases "find (\<lambda>rel. relation_mentions rel key) (relations p)")
    case None
    then show ?thesis using Cons.IH[of rd s] Cons.prems by auto
  next
    case (Some rel)
    show ?thesis
    proof (cases "checkFieldInTemplate (template p) key")
      case False
      then show ?thesis using Some Cons.IH[of rd s] Cons.prems by auto
    next
      case True
      obtain r s1 where rf: "resolve_field api (collectionName p) pkFinal valObj oldValObj rel key s = (r, s1)"
        by (cases "resolve_field api (collectionName p) pkFinal valObj oldValObj rel key s")
      show ?thesis
      proof (cases r)
        case (Inl e)
        then show ?thesis using Some True rf Cons.prems by (simp split: if_splits)
      next
        case (Inr v)
        then have "resolve_fields api p pkFinal valObj oldValObj keys (obj_set rd key v) s1 = (Inr rd', s')"
          using Some True rf Cons.prems by (simp split: if_splits)
        from Cons.IH[OF this] show ?thesis using Some True by (auto simp: keys_obj_set)
      qed
    qed
  qed
qed

lemma blog_state_eq:
  "blog_state =
     \<lparr>fieldCache = [(''comments'', JArr [JNum 1, JNum 2, JNum 3])],
      itemCache = [(''comments'', [(''1'', comment 1 ''a''), (''2'', comment 2 ''b'')])],
      finalValues =
        [(''title'', JStr ''x''),
         (''comments'', JArr [comment 1 ''a'', comment 2 ''new'']),
         (''__currentUser'', JNull)],
      requests = [GetField ''items/posts/10'' ''comments'', GetItems ''items/comments'' ''1,2'']\<rparr>"
  by (simp add: blog_state_def callback_eval gate_eval template_eval js_eval engine_eval blog_eval)


lemma find_by_id_ok:
  "list_all (\<lambda>u. \<not> nullish u) us \<Longrightarrow> find_by_id i us = Inr (in_flight us i)"
  by (induction us) (auto simp: in_flight_def)


lemma key_insert_last:
  "\<forall>q\<in>set qs. \<not> key_before k (fst q) \<Longrightarrow> key_insert k v qs = qs @ [(k, v)]"
  by (induction qs) auto

lemma foldl_obj_set_ordered:
  "js_ordered ps \<Longrightarrow> foldl (\<lambda>acc (k, x). obj_set acc k x) [] ps = ps"
proof (induction ps rule: rev_induct)
  case Nil
  then show ?case by simp
next
  case (snoc q qs)
  obtain k v where q: "q = (k, v)" by (cases q)
  from snoc.prems have o: "js_ordered qs" and nk: "k \<notin> fst ` set qs"
    and last: "\<forall>a\<in>set qs. \<not> key_before k (fst a)"
    by (auto simp: js_ordered_def q sorted_wrt_append)
  have "foldl (\<lambda>acc (k, x). obj_set acc k x) [] (qs @ [q]) = obj_set qs k v"
    using snoc.IH[OF o] by (simp add: q)
  also have "\<dots> = key_insert k v qs" using nk by (simp add: obj_set_def has_key_iff)
  also have "\<dots> = qs @ [(k, v)]" using last by (rule key_insert_last)
  finally show ?case by (simp add: q)
qed

lemma spread_copy: "js_ordered ps \<Longrightarrow> spread [] (JObj ps) = ps"
  by (simp add: spread_def foldl_obj_set_ordered)

lemma spread_undefined [simp]: "spread base JUndefined = base"
  by (simp add: spread_def)


lemma merge_items_ok:
  assumes "find_update fc = (\<lambda>i. Inr (in_flight us i))"
    and "list_all (\<lambda>item. \<not> nullish item) items"
  shows "fst (merge_items rc fc items s) = Inr (map (merged us) items)"
  using assms(2)
proof (induction items arbitrary: s)
  case Nil
  then show ?case by simp
next
  case (Cons item items)
  let ?s1 = "s\<lparr>itemCache := cache_item rc item (itemCache s)\<rparr>"
  obtain r s' where m: "merge_items rc fc items ?s1 = (r, s')"
    by (cases "merge_items rc fc items ?s1")
  from Cons.prems have "list_all (\<lambda>item. \<not> nullish item) items" by simp
  from Cons.IH[OF this, of ?s1] have "r = Inr (map (merged us) items)" using m by simp
  then show ?case using Cons.prems m by (simp add: assms(1) merged_def)
qed

lemma find_update_array:
  "get_prop fc ''update'' = JArr us \<Longrightarrow> list_all (\<lambda>u. \<not> nullish u) us \<Longrightarrow>
     find_update fc = (\<lambda>i. Inr (in_flight us i))"
  by (rule ext) (simp add: find_update_def nullish_def find_by_id_ok)



lemma baseline_ids_memo:
  assumes "\<not> strict_eq pkFinal (JStr ''+'')"
    and "baseline_ids api coll pkFinal key s = (Inr baseline, s1)"
  shows "if js_has (fieldCache s) key
         then has_key (fieldCache s) key
            \<and> baseline = js_concat [] (obj_get (fieldCache s) key) \<and> s1 = s
         else \<exists>d. api (requests s) (GetField (''items/'' @ coll @ ''/'' @ to_string pkFinal) key)
                     = Reply d
                \<and> baseline = js_concat [] d
                \<and> s1 = s\<lparr>requests :=
                            requests s @ [GetField (''items/'' @ coll @ ''/'' @ to_string pkFinal) key],
                          fieldCache := obj_set (fieldCache s) key d\<rparr>"
  using assms
  by (auto simp: baseline_ids_def reads_prototype_def js_has_def fetch_def
      split: if_splits response.splits)

lemma normalize_m2o_scalar:
  "typeof v = ''number'' \<or> typeof v = ''string'' \<Longrightarrow>
     fst (normalize_changes True v oldRaw s) = JObj [(''update'', JArr [JObj [(''id'', v)]])]"
  by (simp add: normalize_changes_def)

lemma normalize_m2o_with_id:
  "has_key ps ''id'' \<Longrightarrow>
     fst (normalize_changes True (JObj ps) oldRaw s) = JObj [(''update'', JArr [JObj ps])]"
  by (simp add: normalize_changes_def)

lemma normalize_m2o_without_id:
  "\<not> has_key ps ''id'' \<Longrightarrow>
     fst (normalize_changes True (JObj ps) oldRaw s)
       = JObj [(''create'', JArr [JObj (spread [] (JObj ps))])]"
  by (simp add: normalize_changes_def)

lemma in_flight_single:
  "in_flight [u] i = (if strict_eq i (get_prop u ''id'') then u else JUndefined)"
  by (simp add: in_flight_def)

lemma resolve_field_m2o_update:
  assumes m2o: "collection rel = coll"
    and norm: "fst (normalize_changes True (raw_changes valObj (field_name True rel))
                 (obj_get oldValObj key) s) = JObj [(''update'', JArr [u])]"
    and u: "\<not> nullish u"
    and rc: "related_collection rel = Some rc" "rc \<noteq> []"
    and items: "load_items api rc [get_prop u ''id'']
                  (snd (normalize_changes True (raw_changes valObj (field_name True rel))
                     (obj_get oldValObj key) s)) = (Inr items, s2)"
    and nn: "list_all (\<lambda>item. \<not> nullish item) items"
  shows "fst (resolve_field api coll pkFinal valObj oldValObj rel key s)
           = Inr (case items of [] \<Rightarrow> JUndefined | item # rest \<Rightarrow> merged [u] item)"
proof -
  let ?n = "normalize_changes True (raw_changes valObj (field_name True rel))
              (obj_get oldValObj key) s"
  let ?fc = "JObj [(''update'', JArr [u])]"
  have c: "collect_ids api coll pkFinal True ?fc key (snd ?n) = (Inr [get_prop u ''id''], snd ?n)"
    using u by (simp add: collect_ids_def append_updated_def mapped_ids_def obj_get_def)
  have fu: "find_update ?fc = (\<lambda>i. Inr (in_flight [u] i))"
    by (rule find_update_array) (simp_all add: obj_get_def u)
  obtain r s3 where m: "merge_items rc ?fc items s2 = (r, s3)"
    by (cases "merge_items rc ?fc items s2")
  with merge_items_ok[OF fu nn, of rc s2] have r: "r = Inr (map (merged [u]) items)" by simp
  have ri: "resolve_items api True rel ?fc [get_prop u ''id''] (snd ?n) = (r, s3)"
    using rc items m by (simp add: resolve_items_def related_of_def)
  have "field_value True (append_created ?fc (map (merged [u]) items))
      = (case items of [] \<Rightarrow> JUndefined | item # rest \<Rightarrow> merged [u] item)"
    by (cases items) (simp_all add: field_value_def append_created_def obj_get_def)
  then show ?thesis
    using m2o norm c ri r by (simp add: resolve_field_def Let_def)
qed

lemma resolve_field_m2o_create:
  assumes m2o: "collection rel = coll"
    and norm: "fst (normalize_changes True (raw_changes valObj (field_name True rel))
                 (obj_get oldValObj key) s) = JObj [(''create'', JArr [c])]"
  shows "fst (resolve_field api coll pkFinal valObj oldValObj rel key s) = Inr c"
  using assms
  by (simp add: resolve_field_def Let_def collect_ids_def append_updated_def obj_get_def
      resolve_items_def field_value_def append_created_def js_concat_def)



lemma load_items_own_hit:
  assumes "\<not> inherited rc" "has_key (itemCache s) rc"
    and "list_all (\<lambda>i. has_key (cache_get (itemCache s) rc) (to_string i)) ids"
    and "list_all storable (map (\<lambda>i. obj_get (cache_get (itemCache s) rc) (to_string i)) ids)"
  shows "load_items api rc ids s
           = (Inr (map (\<lambda>i. obj_get (cache_get (itemCache s) rc) (to_string i)) ids), s)"
proof -
  have h: "cache_hit (itemCache s) rc ids"
    using assms(2,3) by (auto simp: cache_hit_def js_has_def list_all_iff)
  have n: "\<not> list_ex (\<lambda>i. reads_prototype (cache_get (itemCache s) rc) (to_string i)) ids"
    using assms(3) by (auto simp: reads_prototype_def list_all_iff list_ex_iff)
  show ?thesis using assms(1,4) h n by (simp add: load_items_def deliver_def)
qed



section \<open>Frame and cache lemmas\<close>

lemma key_replace_same: "map_of ps k = Some v \<Longrightarrow> key_replace k v ps = ps"
  by (induction ps) (auto split: if_splits)

lemma obj_set_same: "map_of ps k = Some v \<Longrightarrow> obj_set ps k v = ps"
  by (simp add: obj_set_def has_key_def key_replace_same)

lemma map_of_obj_get: "has_key ps k \<Longrightarrow> map_of ps k = Some (obj_get ps k)"
  by (auto simp: has_key_def obj_get_def)

lemma map_of_cache_get: "has_key ic rc \<Longrightarrow> map_of ic rc = Some (cache_get ic rc)"
  by (auto simp: has_key_def cache_get_def)

text \<open>No step reads \<^verbatim>\<open>finalValues\<close>.\<close>

lemma normalize_changes_frame:
  "normalize_changes isM2O fc oldRaw (s\<lparr>finalValues := R\<rparr>)
     = (fst (normalize_changes isM2O fc oldRaw s),
        (snd (normalize_changes isM2O fc oldRaw s))\<lparr>finalValues := R\<rparr>)"
  by (simp add: normalize_changes_def clear_caches_def)

lemma baseline_ids_frame:
  "baseline_ids api coll pkFinal key (s\<lparr>finalValues := R\<rparr>)
     = (fst (baseline_ids api coll pkFinal key s),
        (snd (baseline_ids api coll pkFinal key s))\<lparr>finalValues := R\<rparr>)"
  by (simp add: baseline_ids_def fetch_def split: response.splits)

lemma and_then_frame:
  assumes "m' = (fst m, (snd m)\<lparr>finalValues := R\<rparr>)"
    and "\<And>x t. f x (t\<lparr>finalValues := R\<rparr>) = (fst (f x t), (snd (f x t))\<lparr>finalValues := R\<rparr>)"
  shows "and_then m' f = (fst (and_then m f), (snd (and_then m f))\<lparr>finalValues := R\<rparr>)"
proof (cases m)
  case (Pair r t)
  then show ?thesis using assms by (cases r) (simp_all add: and_then_def)
qed

lemma collect_ids_frame:
  "collect_ids api coll pkFinal isM2O fc key (s\<lparr>finalValues := R\<rparr>)
     = (fst (collect_ids api coll pkFinal isM2O fc key s),
        (snd (collect_ids api coll pkFinal isM2O fc key s))\<lparr>finalValues := R\<rparr>)"
proof (cases isM2O)
  case True
  then show ?thesis by (simp add: collect_ids_def)
next
  case False
  show ?thesis
    unfolding collect_ids_def using False
    by (simp, intro and_then_frame) (simp_all add: baseline_ids_frame split: sum.splits)
qed

lemma load_items_frame:
  "load_items api rc ids (s\<lparr>finalValues := R\<rparr>)
     = (fst (load_items api rc ids s), (snd (load_items api rc ids s))\<lparr>finalValues := R\<rparr>)"
  by (simp add: load_items_def deliver_def fetch_def split: response.splits jsval.splits)

lemma merge_items_frame:
  "merge_items rc fc items (s\<lparr>finalValues := R\<rparr>)
     = (fst (merge_items rc fc items s), (snd (merge_items rc fc items s))\<lparr>finalValues := R\<rparr>)"
proof (induction items arbitrary: s)
  case Nil
  then show ?case by simp
next
  case (Cons item items)
  show ?case
  proof (cases "nullish item")
    case True
    then show ?thesis by simp
  next
    case False
    show ?thesis
    proof (cases "find_update fc (get_prop item ''id'')")
      case (Inl e)
      then show ?thesis using False by simp
    next
      case (Inr u)
      let ?s1 = "s\<lparr>itemCache := cache_item rc item (itemCache s)\<rparr>"
      have st: "(s\<lparr>finalValues := R\<rparr>)\<lparr>itemCache := cache_item rc item (itemCache s)\<rparr>
          = ?s1\<lparr>finalValues := R\<rparr>" by simp
      have ih: "merge_items rc fc items
            ((s\<lparr>finalValues := R\<rparr>)\<lparr>itemCache := cache_item rc item (itemCache s)\<rparr>)
          = (fst (merge_items rc fc items ?s1), (snd (merge_items rc fc items ?s1))\<lparr>finalValues := R\<rparr>)"
        unfolding st by (rule Cons.IH)
      obtain r t where m: "merge_items rc fc items ?s1 = (r, t)"
        by (cases "merge_items rc fc items ?s1")
      have "merge_items rc fc (item # items) (s\<lparr>finalValues := R\<rparr>)
          = and_then (merge_items rc fc items
               ((s\<lparr>finalValues := R\<rparr>)\<lparr>itemCache := cache_item rc item (itemCache s)\<rparr>))
             (\<lambda>rest s'. (Inr (JObj (spread (spread [] item) u) # rest), s'))"
        using False Inr by simp
      also have "\<dots> = and_then (r, t\<lparr>finalValues := R\<rparr>)
             (\<lambda>rest s'. (Inr (JObj (spread (spread [] item) u) # rest), s'))"
        unfolding ih m by simp
      finally show ?thesis using False Inr m by (cases r) simp_all
    qed
  qed
qed

lemma resolve_items_frame:
  "resolve_items api isM2O rel fc ids (s\<lparr>finalValues := R\<rparr>)
     = (fst (resolve_items api isM2O rel fc ids s),
        (snd (resolve_items api isM2O rel fc ids s))\<lparr>finalValues := R\<rparr>)"
proof -
  have "and_then (load_items api rc ids (s\<lparr>finalValues := R\<rparr>)) (\<lambda>data s'. merge_items rc fc data s')
      = (fst (and_then (load_items api rc ids s) (\<lambda>data s'. merge_items rc fc data s')),
         (snd (and_then (load_items api rc ids s) (\<lambda>data s'. merge_items rc fc data s')))\<lparr>finalValues := R\<rparr>)"
    for rc
    by (rule and_then_frame) (simp_all add: load_items_frame merge_items_frame)
  then show ?thesis by (simp add: resolve_items_def split: option.splits)
qed

lemma resolve_field_frame:
  "resolve_field api coll pkFinal valObj oldValObj rel key (s\<lparr>finalValues := R\<rparr>)
     = (fst (resolve_field api coll pkFinal valObj oldValObj rel key s),
        (snd (resolve_field api coll pkFinal valObj oldValObj rel key s))\<lparr>finalValues := R\<rparr>)"
  unfolding resolve_field_def Let_def normalize_changes_frame fst_conv snd_conv
  by (intro and_then_frame) (simp_all add: collect_ids_frame resolve_items_frame)

lemma resolve_fields_frame:
  "resolve_fields api p pkFinal valObj oldValObj keys rd (s\<lparr>finalValues := R\<rparr>)
     = (fst (resolve_fields api p pkFinal valObj oldValObj keys rd s),
        (snd (resolve_fields api p pkFinal valObj oldValObj keys rd s))\<lparr>finalValues := R\<rparr>)"
proof (induction keys arbitrary: rd s)
  case Nil
  then show ?case by simp
next
  case (Cons key keys)
  show ?case
    by (simp add: Cons.IH resolve_field_frame split: option.splits prod.splits sum.splits)
qed

lemma normalize_no_reset:
  "\<not> resets isM2O (obj_get valObj f) oldRaw \<Longrightarrow>
     snd (normalize_changes isM2O (raw_changes valObj f) oldRaw s) = s"
  by (auto simp: normalize_state resets_def split: if_splits)

lemma foldl_add_null_same:
  "set ks \<subseteq> fst ` set v \<Longrightarrow>
     foldl (\<lambda>v key. if js_has v key then v else obj_set v key JNull) v ks = v"
  by (induction ks) (auto simp: js_has_def has_key_iff)

lemma add_removed_keys_subset:
  "fst ` set oldValObj \<subseteq> fst ` set valObj \<Longrightarrow> add_removed_keys oldValObj valObj = valObj"
  by (simp add: add_removed_keys_def foldl_add_null_same)

lemma add_removed_keys_same: "add_removed_keys val val = val"
  by (simp add: add_removed_keys_def foldl_add_null_same)

lemma shouldUpdate_same: "shouldUpdate T cf val val"
  by (simp add: shouldUpdate_iff)

text \<open>The shapes are stable whenever each resolved key is the field name of its relation.\<close>

lemma not_resets_same: "\<not> resets isM2O raw raw"
  by (cases raw) (auto simp: resets_def)

lemma stable_shapes_keys_are_fields:
  assumes "\<forall>key\<in>set (map fst val). \<forall>rel.
             find (\<lambda>rel. relation_mentions rel key) (relations p) = Some rel
             \<longrightarrow> field_name (collection rel = collectionName p) rel = key"
  shows "stable_shapes p val"
  using assms
  by (auto simp: stable_shapes_def list_all_iff not_resets_same split: option.splits)

section \<open>Properties of the template field matcher\<close>

lemma str_includes_iff: "str_includes m f \<longleftrightarrow> (\<exists>a b. m = a @ f @ b)"
proof (induction m)
  case Nil
  then show ?case by auto
next
  case (Cons c cs)
  show ?case
  proof
    assume "str_includes (c # cs) f"
    then consider "str_starts_with (c # cs) f" | "str_includes cs f" by auto
    then show "\<exists>a b. c # cs = a @ f @ b"
    proof cases
      case 1
      then have "c # cs = [] @ f @ drop (length f) (c # cs)"
        unfolding str_starts_with_def by (metis append_Nil append_take_drop_id)
      then show ?thesis by blast
    next
      case 2
      then obtain a b where "cs = a @ f @ b" using Cons.IH by blast
      then have "c # cs = (c # a) @ f @ b" by simp
      then show ?thesis by blast
    qed
  next
    assume "\<exists>a b. c # cs = a @ f @ b"
    then obtain a b where ab: "c # cs = a @ f @ b" by blast
    show "str_includes (c # cs) f"
    proof (cases a)
      case Nil
      then have "str_starts_with (c # cs) f" using ab by (simp add: str_starts_with_def)
      then show ?thesis by simp
    next
      case (Cons x a')
      then have "cs = a' @ f @ b" using ab by simp
      then show ?thesis using Cons.IH by auto
    qed
  qed
qed

text \<open>Every match has the form \<^verbatim>\<open>{{\<close> body \<^verbatim>\<open>}}\<close>, where the dot accepts each character of
  the body and no \<^verbatim>\<open>}}\<close> starts inside the body (the quantifier is lazy), and it is a
  segment of the template.\<close>

lemma lazy_until_close_shape:
  "lazy_until_close dot s = Some (body, rest) \<Longrightarrow>
     s = body @ ''}}'' @ rest \<and> (\<forall>c\<in>set body. dot c)
     \<and> (\<forall>n<length body. \<not> str_starts_with (drop n s) ''}}'')"
proof (induction s arbitrary: body)
  case Nil
  then show ?case by simp
next
  case (Cons c cs)
  show ?case
  proof (cases "str_starts_with (c # cs) ''}}''")
    case True
    with Cons.prems have "body = []" and "rest = drop 2 (c # cs)" by auto
    moreover from True have "c # cs = ''}}'' @ drop 2 (c # cs)"
      unfolding str_starts_with_def by (metis append_take_drop_id length_Cons list.size(3) numeral_2_eq_2)
    ultimately show ?thesis by simp
  next
    case False
    with Cons.prems obtain body' where
      b: "dot c" "lazy_until_close dot cs = Some (body', rest)" "body = c # body'"
      by (auto split: if_splits option.splits)
    from Cons.IH[OF b(2)] have ih:
      "cs = body' @ ''}}'' @ rest" "\<forall>c\<in>set body'. dot c"
      "\<forall>n<length body'. \<not> str_starts_with (drop n cs) ''}}''" by auto
    have "\<not> str_starts_with (drop n (c # cs)) ''}}''" if "n < length body" for n
    proof (cases n)
      case 0
      then show ?thesis using False by simp
    next
      case (Suc k)
      then show ?thesis using ih(3) that b(3) by simp
    qed
    then show ?thesis using b ih by simp
  qed
qed

lemma match_at_shape:
  "match_at dot s = Some (m, rest) \<Longrightarrow>
     \<exists>body. m = ''{{'' @ body @ ''}}'' \<and> s = m @ rest \<and> (\<forall>c\<in>set body. dot c)
       \<and> (\<forall>n<length body. \<not> str_starts_with (drop n (body @ ''}}'' @ rest)) ''}}'')"
proof -
  assume a: "match_at dot s = Some (m, rest)"
  then have st: "str_starts_with s ''{{''" by (auto simp: match_at_def split: if_splits)
  then have s: "s = ''{{'' @ drop 2 s"
    unfolding str_starts_with_def by (metis append_take_drop_id length_Cons list.size(3) numeral_2_eq_2)
  from a st obtain body where
    l: "lazy_until_close dot (drop 2 s) = Some (body, rest)" and m: "m = ''{{'' @ body @ ''}}''"
    by (auto simp: match_at_def split: option.splits)
  from lazy_until_close_shape[OF l] s m show ?thesis by auto
qed

lemma match_all_shape:
  "m \<in> set (match_all dot T) \<Longrightarrow>
     \<exists>pre body post. T = pre @ m @ post \<and> m = ''{{'' @ body @ ''}}'' \<and> (\<forall>c\<in>set body. dot c)
       \<and> (\<forall>n<length body. \<not> str_starts_with (drop n (body @ ''}}'' @ post)) ''}}'')"
proof (induction dot T rule: match_all.induct)
  case (1 dot)
  then show ?case by simp
next
  case (2 dot c cs)
  show ?case
  proof (cases "match_at dot (c # cs)")
    case None
    with 2 obtain pre body post where
      "cs = pre @ m @ post" "m = ''{{'' @ body @ ''}}''" "\<forall>c\<in>set body. dot c"
      "\<forall>n<length body. \<not> str_starts_with (drop n (body @ ''}}'' @ post)) ''}}''"
      by auto
    moreover from this have "c # cs = (c # pre) @ m @ post" by simp
    ultimately show ?thesis by blast
  next
    case (Some mr)
    obtain m' rest where mr: "mr = (m', rest)" by (cases mr)
    from Some mr "2.prems" consider "m = m'" | "m \<in> set (match_all dot rest)" by auto
    then show ?thesis
    proof cases
      case 1
      from match_at_shape[OF Some[unfolded mr]] obtain body where
        "m' = ''{{'' @ body @ ''}}''" "c # cs = m' @ rest" "\<forall>c\<in>set body. dot c"
        "\<forall>n<length body. \<not> str_starts_with (drop n (body @ ''}}'' @ rest)) ''}}''" by blast
      with 1 have "c # cs = [] @ m @ rest \<and> m = ''{{'' @ body @ ''}}'' \<and> (\<forall>c\<in>set body. dot c)
        \<and> (\<forall>n<length body. \<not> str_starts_with (drop n (body @ ''}}'' @ rest)) ''}}'')" by simp
      then show ?thesis by blast
    next
      case 2
      from "2.IH"(2)[OF Some[unfolded mr] refl 2] obtain pre body post where
        p: "rest = pre @ m @ post" "m = ''{{'' @ body @ ''}}''" "\<forall>c\<in>set body. dot c"
        "\<forall>n<length body. \<not> str_starts_with (drop n (body @ ''}}'' @ post)) ''}}''" by blast
      from match_at_shape[OF Some[unfolded mr]] have "c # cs = m' @ rest" by blast
      with p have "c # cs = (m' @ pre) @ m @ post" by simp
      with p show ?thesis by blast
    qed
  qed
qed

text \<open>The scanner finds every placeholder: completeness of the lazy search, and the
  placeholders that overlap a match.\<close>

lemma starts_with_close_Cons:
  "str_starts_with (c # cs) ''}}'' \<longleftrightarrow> c = CHR ''}'' \<and> (\<exists>r. cs = CHR ''}'' # r)"
  by (cases cs) (auto simp: str_starts_with_def)

lemma lazy_until_close_complete:
  "lazy_body dot body \<Longrightarrow> lazy_until_close dot (body @ ''}}'' @ post) = Some (body, post)"
proof (induction body)
  case Nil
  then show ?case by (simp add: str_starts_with_def)
next
  case (Cons c b)
  from Cons.prems have d: "dot c" and lb: "lazy_body dot b"
    and ns: "\<not> str_starts_with ((c # b) @ ''}'') ''}}''"
    by (auto simp: lazy_body_def)
  have "\<not> str_starts_with ((c # b) @ ''}}'' @ post) ''}}''"
    using ns by (cases b) (auto simp: str_starts_with_def)
  then show ?case using d Cons.IH[OF lb] by simp
qed

lemma lazy_until_close_suffix:
  "lazy_until_close dot (x @ y) = Some (body, rest) \<Longrightarrow> length x \<le> length body \<Longrightarrow>
     lazy_until_close dot y = Some (drop (length x) body, rest)"
proof (induction x arbitrary: body)
  case Nil
  then show ?case by simp
next
  case (Cons c x)
  from Cons.prems obtain body' where
    b: "body = c # body'" "lazy_until_close dot (x @ y) = Some (body', rest)"
    by (auto split: if_splits option.splits)
  with Cons.prems(2) have "length x \<le> length body'" by simp
  from Cons.IH[OF b(2) this] show ?case by (simp add: b(1))
qed

lemma match_at_complete:
  "lazy_body dot body \<Longrightarrow>
     match_at dot (''{{'' @ body @ ''}}'' @ post) = Some (''{{'' @ body @ ''}}'', post)"
  using lazy_until_close_complete[of dot body post]
  by (simp add: match_at_def str_starts_with_def)

lemma match_at_lazy:
  "match_at dot s = Some (m, rest) \<Longrightarrow>
     \<exists>bm. m = ''{{'' @ bm @ ''}}'' \<and> s = m @ rest
        \<and> lazy_until_close dot (bm @ ''}}'' @ rest) = Some (bm, rest)"
proof -
  assume a: "match_at dot s = Some (m, rest)"
  then have st: "str_starts_with s ''{{''" by (auto simp: match_at_def split: if_splits)
  from a st obtain bm where
    l: "lazy_until_close dot (drop 2 s) = Some (bm, rest)" and m: "m = ''{{'' @ bm @ ''}}''"
    by (auto simp: match_at_def split: option.splits)
  from match_at_shape[OF a] m have s: "s = m @ rest" by auto
  then have "drop 2 s = bm @ ''}}'' @ rest" using m by simp
  with l m s show ?thesis by auto
qed

lemma drop_prefix: "n \<le> length xs \<Longrightarrow> drop n (xs @ ys) = drop n xs @ ys"
  by simp

text \<open>A placeholder that begins inside a match ends with it.\<close>

lemma overlap_inside:
  assumes T: "''{{'' @ bm @ ''}}'' @ rest = pre @ ''{{'' @ bs @ ''}}'' @ post"
    and lm: "lazy_until_close dot (bm @ ''}}'' @ rest) = Some (bm, rest)"
    and ls: "lazy_body dot bs"
    and p: "0 < length pre" "length pre < length bm + 4"
  shows "''{{'' @ bm @ ''}}'' = pre @ ''{{'' @ bs @ ''}}''"
proof -
  let ?T = "''{{'' @ bm @ ''}}'' @ rest"
  have o1: "?T ! length pre = CHR ''{''" and o2: "?T ! (length pre + 1) = CHR ''{''"
    unfolding T by (simp_all add: nth_append)
  have c1: "?T ! (length bm + 2) = CHR ''}''" and c2: "?T ! (length bm + 3) = CHR ''}''"
    by (simp_all add: nth_append nth_Cons')
  have le: "length pre \<le> length bm"
  proof (rule ccontr)
    assume "\<not> length pre \<le> length bm"
    with p(2) consider "length pre = length bm + 1" | "length pre = length bm + 2"
      | "length pre = length bm + 3" by linarith
    then show False
    proof cases
      case 1
      with o2 c1 show False by simp
    next
      case 2
      with o1 c1 show False by simp
    next
      case 3
      with o1 c2 show False by simp
    qed
  qed
  have d: "drop 2 ?T = bm @ ''}}'' @ rest" by simp
  have "drop 2 ((pre @ ''{{'') @ (bs @ ''}}'' @ post))
      = drop 2 (pre @ ''{{'') @ (bs @ ''}}'' @ post)"
    by (rule drop_prefix) simp
  then have "drop 2 (pre @ ''{{'' @ bs @ ''}}'' @ post)
      = drop 2 (pre @ ''{{'') @ bs @ ''}}'' @ post" by simp
  with T d have x: "bm @ ''}}'' @ rest = drop 2 (pre @ ''{{'') @ (bs @ ''}}'' @ post)" by simp
  have lx: "length (drop 2 (pre @ ''{{'')) = length pre" by simp
  from lazy_until_close_suffix[of dot "drop 2 (pre @ ''{{'')" "bs @ ''}}'' @ post" bm rest]
    lm x le lx
  have "lazy_until_close dot (bs @ ''}}'' @ post) = Some (drop (length pre) bm, rest)" by simp
  with lazy_until_close_complete[OF ls, of post] have "post = rest" by simp
  with T show ?thesis by simp
qed

lemma placeholder_in_match:
  "T = pre @ ''{{'' @ bs @ ''}}'' @ post \<Longrightarrow> lazy_body dot bs \<Longrightarrow>
     \<exists>m\<in>set (match_all dot T). \<exists>a b. m = a @ (''{{'' @ bs @ ''}}'') @ b"
proof (induction dot T arbitrary: pre rule: match_all.induct)
  case (1 dot)
  then show ?case by simp
next
  case (2 dot c cs)
  let ?seg = "''{{'' @ bs @ ''}}''"
  show ?case
  proof (cases "match_at dot (c # cs)")
    case None
    have "pre \<noteq> []"
    proof
      assume "pre = []"
      with "2.prems" match_at_complete[of dot bs post] None show False by simp
    qed
    then obtain pre' where pre: "pre = c # pre'" using "2.prems"(1) by (cases pre) auto
    with "2.prems"(1) have "cs = pre' @ ''{{'' @ bs @ ''}}'' @ post" by simp
    from "2.IH"(1)[OF None this "2.prems"(2)] show ?thesis using None by simp
  next
    case (Some mr)
    obtain m rest where mr: "mr = (m, rest)" by (cases mr)
    from match_at_lazy[OF Some[unfolded mr]] obtain bm where
      m: "m = ''{{'' @ bm @ ''}}''" and T: "c # cs = m @ rest"
      and lm: "lazy_until_close dot (bm @ ''}}'' @ rest) = Some (bm, rest)" by blast
    have ma: "match_all dot (c # cs) = m # match_all dot rest" using Some mr by simp
    consider "length m \<le> length pre" | "pre = []" | "0 < length pre" "length pre < length m"
      by (metis length_greater_0_conv not_le)
    then show ?thesis
    proof cases
      case 1
      from T "2.prems"(1) have e: "m @ rest = pre @ ?seg @ post" by simp
      with 1 obtain pre' where "pre = m @ pre'"
        by (metis append_eq_append_conv_if append_take_drop_id)
      with e have "rest = pre' @ ''{{'' @ bs @ ''}}'' @ post" by simp
      from "2.IH"(2)[OF Some[unfolded mr] refl this "2.prems"(2)] show ?thesis
        unfolding ma by auto
    next
      case 2
      with "2.prems" match_at_complete[of dot bs post] Some mr have "m = ?seg" by simp
      then have "m = [] @ ?seg @ []" by simp
      then show ?thesis unfolding ma by (metis list.set_intros(1))
    next
      case 3
      from T "2.prems"(1) m have e: "''{{'' @ bm @ ''}}'' @ rest = pre @ ''{{'' @ bs @ ''}}'' @ post"
        by simp
      from 3(2) m have "length pre < length bm + 4" by simp
      from overlap_inside[OF e lm "2.prems"(2) 3(1) this] m have "m = pre @ ?seg @ []" by simp
      then show ?thesis unfolding ma by (metis list.set_intros(1))
    qed
  qed
qed

lemma match_all_lazy:
  assumes "m \<in> set (match_all dot T)"
  shows "\<exists>pre body post. T = pre @ ''{{'' @ body @ ''}}'' @ post \<and> m = ''{{'' @ body @ ''}}''
           \<and> lazy_body dot body"
proof -
  from match_all_shape[OF assms] obtain pre body post where
    s: "T = pre @ m @ post" "m = ''{{'' @ body @ ''}}''" "\<forall>c\<in>set body. dot c"
    "\<forall>n<length body. \<not> str_starts_with (drop n (body @ ''}}'' @ post)) ''}}''" by blast
  have "\<not> str_includes (body @ ''}'') ''}}''"
  proof
    assume "str_includes (body @ ''}'') ''}}''"
    then obtain a b where ab: "body @ ''}'' = a @ ''}}'' @ b" unfolding str_includes_iff by blast
    then have "length body + 1 = length a + 2 + length b" by (metis length_append length_Cons list.size(3) add.assoc One_nat_def Suc_eq_plus1 add_2_eq_Suc' add.commute)
    then have la: "length a < length body" by simp
    have "body @ ''}}'' @ post = (body @ ''}'') @ ''}'' @ post" by simp
    also have "\<dots> = a @ ''}}'' @ b @ ''}'' @ post" unfolding ab by simp
    finally have E: "body @ ''}}'' @ post = a @ ''}}'' @ b @ ''}'' @ post" .
    have "drop (length a) (body @ ''}}'' @ post) = ''}}'' @ b @ ''}'' @ post"
      unfolding E by simp
    then have "str_starts_with (drop (length a) (body @ ''}}'' @ post)) ''}}''"
      by (simp add: str_starts_with_def)
    with s(4) la show False by blast
  qed
  with s show ?thesis by (auto simp: lazy_body_def list_all_iff)
qed


text \<open>
  Claim C8, as amended. \<^verbatim>\<open>checkFieldInTemplate(T, f)\<close> is true iff \<open>f\<close> is a segment
  (substring) of a placeholder of \<open>T\<close>: a segment \<^verbatim>\<open>{{\<close> body \<^verbatim>\<open>}}\<close> of \<open>T\<close> whose body
  holds no line terminator and in which no \<^verbatim>\<open>}}\<close> begins before the closing one (the
  quantifier is lazy). These segments are the matches of \<^verbatim>\<open>/{{.*?}}/g\<close> up to overlap:
  every match is such a segment (\<open>match_all_lazy\<close>), and every such segment is a match or
  the end of a match (\<open>placeholder_in_match\<close>). The test is a substring test, not a token
  test: the field \<^verbatim>\<open>name\<close> is referenced by the template \<^verbatim>\<open>{{username}}\<close>.
\<close>

theorem checkFieldInTemplate_iff_substring_of_match:
  "checkFieldInTemplate T f \<longleftrightarrow>
     (\<exists>pre body post. T = pre @ ''{{'' @ body @ ''}}'' @ post
        \<and> lazy_body regexp_dot body
        \<and> (\<exists>a b. ''{{'' @ body @ ''}}'' = a @ f @ b))"
proof
  assume "checkFieldInTemplate T f"
  then obtain m where m: "m \<in> set (match_all regexp_dot T)" and f: "\<exists>a b. m = a @ f @ b"
    by (auto simp: checkFieldInTemplate_def list_ex_iff str_includes_iff)
  from match_all_lazy[OF m] f show "\<exists>pre body post. T = pre @ ''{{'' @ body @ ''}}'' @ post
        \<and> lazy_body regexp_dot body \<and> (\<exists>a b. ''{{'' @ body @ ''}}'' = a @ f @ b)" by blast
next
  assume "\<exists>pre body post. T = pre @ ''{{'' @ body @ ''}}'' @ post
        \<and> lazy_body regexp_dot body \<and> (\<exists>a b. ''{{'' @ body @ ''}}'' = a @ f @ b)"
  then obtain pre body post a b where T: "T = pre @ ''{{'' @ body @ ''}}'' @ post"
    and l: "lazy_body regexp_dot body" and f: "''{{'' @ body @ ''}}'' = a @ f @ b" by blast
  from placeholder_in_match[OF T l] obtain m a' b' where
    m: "m \<in> set (match_all regexp_dot T)" "m = a' @ (''{{'' @ body @ ''}}'') @ b'" by blast
  then have "m = (a' @ a) @ f @ (b @ b')" unfolding f by simp
  with m(1) show "checkFieldInTemplate T f"
    unfolding checkFieldInTemplate_def list_ex_iff str_includes_iff by blast
qed

theorem checkFieldInTemplate_username_witness:
  "checkFieldInTemplate ''{{username}}'' ''name''"
proof -
  have l: "lazy_body regexp_dot ''username''" by code_simp
  have "''{{username}}'' = [] @ ''{{'' @ ''username'' @ ''}}'' @ []
      \<and> lazy_body regexp_dot ''username''
      \<and> ''{{'' @ ''username'' @ ''}}'' = ''{{user'' @ ''name'' @ ''}}''"
    using l by simp
  then show ?thesis
    using checkFieldInTemplate_iff_substring_of_match [of "''{{username}}''" "''name''"]
    by blast
qed

text \<open>
  Claim C8 as stated, with "any characters", fails on a placeholder that spans a line
  break: the regular expression has no match in \<^verbatim>\<open>{{a\nb}}\<close>, so the field \<^verbatim>\<open>a\<close> is not
  referenced, while the specification's placeholder covers the whole template.
\<close>

theorem checkFieldInTemplate_line_break_counterexample:
  "\<not> checkFieldInTemplate (''{{a'' @ [CHR 0x0A] @ ''b}}'') ''a''
   \<and> spec_fieldIsReferenced (''{{a'' @ [CHR 0x0A] @ ''b}}'') ''a''"
  by (simp add: checkFieldInTemplate_def spec_fieldIsReferenced_def spec_extractPlaceholders_def
      match_at_def str_starts_with_def regexp_dot_def is_line_terminator_def)

section \<open>Properties of the path lookup\<close>

text \<open>
  Claim C9. \<^verbatim>\<open>findValueByPath\<close> returns the sentinel for a segment that is missing in an
  object, but the operator \<^verbatim>\<open>in\<close> throws a \<^verbatim>\<open>TypeError\<close> when the value reached so far is
  a number, a string, a boolean or \<^verbatim>\<open>null\<close>: \<^verbatim>\<open>findValueByPath({a: 5}, "a.b")\<close> raises.
\<close>

theorem findValueByPath_raises_on_primitive:
  "findValueByPath [(''a'', JNum 5)] ''a.b'' = Inl TypeError"
  by code_simp

section \<open>Properties of the trigger gate\<close>

text \<open>
  Claim C10. \<^verbatim>\<open>shouldUpdate\<close> never counts the key of the computed field as changed. When
  the serialized values of the old and the new record differ at most at that key, the list
  of changed fields is empty, \<^verbatim>\<open>shouldUpdate\<close> returns true ("update even if no fields
  changed") and the callback recomputes, whatever the template references.
\<close>

theorem shouldUpdate_ignores_computed_field:
  "computedField p \<notin> set (changedFields (computedField p) val oldVal)
   \<and> ((\<forall>k. k \<noteq> computedField p \<longrightarrow>
           JSON_stringify (obj_get val k) = JSON_stringify (obj_get oldVal k)) \<longrightarrow>
        changedFields (computedField p) val oldVal = []
        \<and> shouldUpdate (template p) (computedField p) val oldVal
        \<and> fst (watch_callback api p val (Some oldVal) s) \<noteq> Skipped)"
proof -
  have 1: "computedField p \<notin> set (changedFields (computedField p) val oldVal)"
    by (simp add: set_changedFields)
  have 2: "changedFields (computedField p) val oldVal = []
        \<and> shouldUpdate (template p) (computedField p) val oldVal
        \<and> fst (watch_callback api p val (Some oldVal) s) \<noteq> Skipped"
    if h: "\<forall>k. k \<noteq> computedField p \<longrightarrow>
           JSON_stringify (obj_get val k) = JSON_stringify (obj_get oldVal k)"
  proof -
    have "set (changedFields (computedField p) val oldVal) = {}"
      using h by (auto simp: set_changedFields)
    then have c: "changedFields (computedField p) val oldVal = []" by simp
    then have u: "shouldUpdate (template p) (computedField p) val oldVal"
      by (simp add: shouldUpdate_def)
    then show ?thesis using c by (simp add: watch_callback_skipped_iff)
  qed
  from 1 2 show ?thesis by blast
qed

theorem shouldUpdate_ignores_computed_field_witness:
  "changedFields ''c'' [(''c'', JNum 2)] [(''c'', JNum 1)] = []
   \<and> fst (watch_callback no_api computed_props [(''c'', JNum 2)] (Some [(''c'', JNum 1)])
           computed_state) \<noteq> Skipped"
proof -
  have "\<forall>k. k \<noteq> computedField computed_props \<longrightarrow>
          JSON_stringify (obj_get [(''c'', JNum 2)] k)
            = JSON_stringify (obj_get [(''c'', JNum 1)] k)"
    by (simp add: computed_props_def obj_get_def)
  then show ?thesis
    using shouldUpdate_ignores_computed_field
      [of computed_props "[(''c'', JNum 2)]" "[(''c'', JNum 1)]" no_api computed_state]
    by (simp add: computed_props_def)
qed







section \<open>Cache invalidation\<close>




section \<open>Removed keys\<close>

text \<open>
  Claim C6, as amended. When a recomputation emits a record, every key of the previous
  edited record that is absent from the new one is bound to \<^verbatim>\<open>null\<close> in the emitted record,
  with three exceptions: the key \<^verbatim>\<open>__currentUser\<close>; a relational field that the template
  references (such a key holds the value resolved for the field); and a key that names a
  member of \<^verbatim>\<open>Object.prototype\<close> (\<^verbatim>\<open>constructor\<close>, \<^verbatim>\<open>toString\<close>, ...), for which the
  test \<^verbatim>\<open>key in valObj\<close> of line 81 holds although the record lacks the key: it gets no
  \<^verbatim>\<open>null\<close> and is omitted from the emitted record.
\<close>

theorem removed_key_is_null:
  assumes "watch_callback api p val (Some oldVal) s = (Emitted, s')"
    and "k \<in> fst ` set oldVal" and "k \<notin> fst ` set val"
    and "k \<noteq> ''__currentUser''"
    and "find (\<lambda>rel. relation_mentions rel k) (relations p) = None
         \<or> \<not> checkFieldInTemplate (template p) k"
  shows "map_of (finalValues s') k = (if inherited k then None else Some JNull)"
proof -
  let ?valObj = "add_removed_keys oldVal val"
  let ?pk = "if truthy (obj_get ?valObj ''id'') then obj_get ?valObj ''id'' else pk p"
  from assms(1) obtain rd where
    rf: "resolve_fields api p ?pk ?valObj oldVal (map fst ?valObj) [] s
           = (Inr rd, snd (resolve_fields api p ?pk ?valObj oldVal (map fst ?valObj) [] s))"
    and fv: "finalValues s'
           = obj_set (spread (spread [] (JObj ?valObj)) (JObj rd)) ''__currentUser'' (currentUser p)"
    by (auto simp: watch_callback_def Let_def split: if_splits prod.splits sum.splits)
  from resolve_fields_keys[OF rf] assms(5) have nk: "k \<notin> fst ` set rd" by auto
  then have rd: "map_of (rev rd) k = None" by (simp add: map_of_eq_None_iff)
  have m: "map_of ?valObj k = (if inherited k then None else Some JNull)"
    by (rule map_of_add_removed_keys[OF assms(2,3)])
  have v: "map_of (rev ?valObj) k = (if inherited k then None else Some JNull)"
  proof (cases "inherited k")
    case True
    with m have "k \<notin> fst ` set ?valObj" by (simp add: map_of_eq_None_iff)
    then show ?thesis using True by (simp add: map_of_eq_None_iff)
  next
    case False
    have "map_of (rev ?valObj) k = Some JNull"
    proof (rule map_of_rev_all)
      show "k \<in> fst ` set ?valObj"
        using m False has_key_iff[of ?valObj k] by (simp add: has_key_def)
      show "\<forall>x. (k, x) \<in> set ?valObj \<longrightarrow> x = JNull"
        using add_removed_keys_all_null[OF assms(3)] by blast
    qed
    then show ?thesis using False by simp
  qed
  have "map_of (spread (spread [] (JObj ?valObj)) (JObj rd)) k
      = (if inherited k then None else Some JNull)"
    by (simp add: map_of_spread_obj rd v)
  then show ?thesis using assms(4) by (simp add: fv map_of_obj_set)
qed

theorem removed_key_is_null_witness:
  "map_of (finalValues (snd (watch_callback no_api title_props [(''author'', JNum 6)]
            (Some [(''author'', JNum 5), (''title'', JStr ''x''), (''toString'', JStr ''y'')])
            (init_engine JNull))))
     ''title'' = Some JNull
   \<and> map_of (finalValues (snd (watch_callback no_api title_props [(''author'', JNum 6)]
            (Some [(''author'', JNum 5), (''title'', JStr ''x''), (''toString'', JStr ''y'')])
            (init_engine JNull))))
     ''toString'' = None"
proof -
  let ?old = "[(''author'', JNum 5), (''title'', JStr ''x''), (''toString'', JStr ''y'')]"
  have e: "watch_callback no_api title_props [(''author'', JNum 6)] (Some ?old) (init_engine JNull)
      = (Emitted, snd (watch_callback no_api title_props [(''author'', JNum 6)] (Some ?old)
            (init_engine JNull)))"
    by code_simp
  have i: "\<not> inherited ''title''" "inherited ''toString''" by code_simp+
  from removed_key_is_null [OF e, of "''title''"] removed_key_is_null [OF e, of "''toString''"] i
  show ?thesis by (simp add: title_props_def)
qed

text \<open>
  Claim C6 as stated fails for a removed relational field that the template references:
  when the one-to-many field \<^verbatim>\<open>comments\<close> disappears from the record of the blog (the
  pending edits are discarded), its \<^verbatim>\<open>null\<close> is read as the empty mutation (line 99), the
  stored comments are resolved, and the emitted record binds \<^verbatim>\<open>comments\<close> to them.
\<close>

theorem removed_relational_key_counterexample:
  "fst (watch_callback blog_api blog_props [(''title'', JStr ''x'')] (Some edited_post)
          blog_state) = Emitted
   \<and> obj_get (finalValues (snd (watch_callback blog_api blog_props [(''title'', JStr ''x'')]
          (Some edited_post) blog_state))) ''comments''
       = JArr [comment 1 ''a'', comment 2 ''b'', comment 3 ''c'']"
  by code_simp

section \<open>A recomputation fills the caches\<close>

text \<open>
  What a successful run against a server with fixed entities leaves in the caches lets a
  second run with the same record resolve every field without a request, with the same
  result.
\<close>

lemma normalize_fst:
  "fst (normalize_changes m x old t) = normalized m x"
  by (simp add: normalize_changes_def normalized_def)

lemma digit_char_no_comma: "d < 10 \<Longrightarrow> digit_char d \<noteq> CHR '',''"
proof -
  assume "d < 10"
  then have "d \<in> set [0..<10]" by simp
  moreover have "\<forall>d\<in>set [0..<10]. digit_char d \<noteq> CHR '',''" by code_simp
  ultimately show ?thesis by blast
qed

lemma show_nat_no_comma: "CHR '','' \<notin> set (show_nat n)"
proof (induction n rule: show_nat.induct)
  case (1 n)
  show ?case
  proof (cases "n < 10")
    case True
    then show ?thesis using digit_char_no_comma[of n] by (subst show_nat.simps) simp
  next
    case False
    have "n mod 10 < 10" by simp
    from digit_char_no_comma[OF this] 1[OF False] False show ?thesis
      by (subst show_nat.simps) simp
  qed
qed

lemma plain_id_no_comma: "plain_id i \<Longrightarrow> CHR '','' \<notin> set (to_string i)"
  by (cases i) (auto simp: plain_id_def show_int_def show_nat_no_comma)

lemma split_sep_no_sep: "c \<notin> set x \<Longrightarrow> split_sep c (x @ c # r) = x # split_sep c r"
  by (induction x) (auto split: list.splits)

lemma split_sep_single: "c \<notin> set x \<Longrightarrow> split_sep c x = [x]"
  by (induction x) (auto split: list.splits)

lemma split_join:
  "xs \<noteq> [] \<Longrightarrow> \<forall>x\<in>set xs. CHR '','' \<notin> set x \<Longrightarrow> split_sep CHR '','' (join '','' xs) = xs"
proof (induction xs)
  case Nil
  then show ?case by simp
next
  case (Cons x xs)
  show ?case
  proof (cases xs)
    case Nil
    then show ?thesis using Cons.prems by (simp add: split_sep_single)
  next
    case (Cons y ys)
    then have "split_sep CHR '','' (join '','' xs) = xs" using Cons.IH Cons.prems by simp
    then show ?thesis
      using Cons Cons.prems split_sep_no_sep[of "CHR '',''" x "join '','' (y # ys)"] by simp
  qed
qed

lemma join_ids_plain:
  assumes "list_all plain_id ids"
  shows "join_ids ids = join '','' (map to_string ids)"
proof -
  have e: "map (\<lambda>x. if x = JUndefined \<or> x = JNull then [] else to_string x) ids = map to_string ids"
    by (rule map_cong[OF refl]) (use assms in \<open>auto simp: list_all_iff plain_id_def\<close>)
  show ?thesis by (simp only: join_ids_def to_string.simps e)
qed

lemma split_join_ids:
  assumes "list_all plain_id ids" "ids \<noteq> []"
  shows "split_sep CHR '','' (join_ids ids) = map to_string ids"
  unfolding join_ids_plain[OF assms(1)]
  by (rule split_join) (use assms in \<open>auto simp: list_all_iff plain_id_no_comma\<close>)

lemma served_init: "served ent (init_engine user)"
  by (simp add: served_def init_engine_def cache_get_def has_key_def)

lemma cache_extends_refl: "cache_extends s s"
  by (simp add: cache_extends_def)

lemma cache_extends_trans: "cache_extends s t \<Longrightarrow> cache_extends t u \<Longrightarrow> cache_extends s u"
  unfolding cache_extends_def by metis

lemma cache_get_has_key: "has_key (cache_get ic rc) k \<Longrightarrow> has_key ic rc"
  by (auto simp: cache_get_def has_key_def split: option.splits)

lemma served_clear: "served ent (clear_caches s)"
  by (simp add: served_def clear_caches_def cache_get_def has_key_def)

subsection \<open>The baseline\<close>

lemma baseline_ids_first:
  assumes b: "baseline_ids api coll pkFinal key s = (Inr b, n)"
    and srv: "entity_server api ent" and inv: "served ent s"
  shows "served ent n \<and> cache_extends s n \<and> itemCache n = itemCache s \<and> list_all plain_id b
       \<and> (\<forall>t. cache_extends n t \<longrightarrow> baseline_ids api' coll pkFinal key t = (Inr b, t))"
proof (cases "strict_eq pkFinal (JStr ''+'')")
  case True
  then show ?thesis using b inv by (simp add: baseline_ids_def cache_extends_refl)
next
  case False
  show ?thesis
  proof (cases "js_has (fieldCache s) key")
    case True
    with b False have own: "has_key (fieldCache s) key"
      and bb: "b = js_concat [] (obj_get (fieldCache s) key)" and n: "n = s"
      by (auto simp: baseline_ids_def reads_prototype_def js_has_def split: if_splits)
    have "baseline_ids api' coll pkFinal key t = (Inr b, t)" if "cache_extends n t" for t
    proof -
      from that own n have "has_key (fieldCache t) key"
        "obj_get (fieldCache t) key = obj_get (fieldCache s) key"
        by (auto simp: cache_extends_def)
      then show ?thesis using False bb
        by (simp add: baseline_ids_def js_has_def reads_prototype_def)
    qed
    moreover have "list_all plain_id b" using inv own bb by (simp add: served_def)
    ultimately show ?thesis using n inv by (simp add: cache_extends_refl)
  next
    case nh: False
    let ?req = "GetField (''items/'' @ coll @ ''/'' @ to_string pkFinal) key"
    from b False nh obtain d where d: "api (requests s) ?req = Reply d"
      and bb: "b = js_concat [] d"
      and n: "n = s\<lparr>requests := requests s @ [?req], fieldCache := obj_set (fieldCache s) key d\<rparr>"
      by (auto simp: baseline_ids_def fetch_def split: response.splits)
    from srv d have pl: "list_all plain_id b" unfolding entity_server_def bb by blast
    have nk: "\<not> has_key (fieldCache s) key" using nh by (simp add: js_has_def)
    have sv: "served ent n"
      using inv pl bb unfolding served_def n
      by (auto simp: has_key_obj_set obj_get_obj_set)
    have ex: "cache_extends s n"
      using nk unfolding cache_extends_def n
      by (auto simp: has_key_obj_set obj_get_obj_set)
    have "baseline_ids api' coll pkFinal key t = (Inr b, t)" if "cache_extends n t" for t
    proof -
      have "has_key (fieldCache n) key" "obj_get (fieldCache n) key = d"
        by (simp_all add: n has_key_obj_set obj_get_obj_set)
      with that have "has_key (fieldCache t) key" "obj_get (fieldCache t) key = d"
        by (auto simp: cache_extends_def)
      then show ?thesis using False bb
        by (simp add: baseline_ids_def js_has_def reads_prototype_def)
    qed
    then show ?thesis using sv ex pl n by simp
  qed
qed

subsection \<open>The ids\<close>

lemma filter_not_included_subset:
  "filter_not_included d xs = Inr ys \<Longrightarrow> set ys \<subseteq> set xs"
proof (induction xs arbitrary: ys)
  case Nil
  then show ?case by simp
next
  case (Cons x xs)
  then show ?case by (auto split: sum.splits if_splits)
qed

lemma drop_updated_subset: "drop_updated fc xs = Inr ys \<Longrightarrow> set ys \<subseteq> set xs"
  by (auto simp: drop_updated_def split: if_splits sum.splits)

lemma drop_deleted_subset: "drop_deleted fc xs = Inr ys \<Longrightarrow> set ys \<subseteq> set xs"
  using filter_not_included_subset by (auto simp: drop_deleted_def split: if_splits)

lemma append_updated_Inr:
  "append_updated fc xs = Inr r \<Longrightarrow> \<exists>us. append_updated fc [] = Inr us \<and> r = xs @ us"
  by (auto simp: append_updated_def split: if_splits sum.splits)

lemma collect_ids_first:
  assumes c: "collect_ids api coll pkFinal m fc key s = (Inr ids, n)"
    and srv: "entity_server api ent" and inv: "served ent s"
    and pu: "case append_updated fc [] of Inl e \<Rightarrow> True | Inr us \<Rightarrow> list_all plain_id us"
  shows "served ent n \<and> cache_extends s n \<and> itemCache n = itemCache s \<and> list_all plain_id ids
       \<and> (\<forall>t. cache_extends n t \<longrightarrow> collect_ids api' coll pkFinal m fc key t = (Inr ids, t))"
proof (cases m)
  case True
  then show ?thesis using c inv pu by (auto simp: collect_ids_def cache_extends_refl)
next
  case False
  obtain r n1 where b: "baseline_ids api coll pkFinal key s = (r, n1)"
    by (cases "baseline_ids api coll pkFinal key s")
  with c False obtain bs where r: "r = Inr bs" by (cases r) (auto simp: collect_ids_def)
  from c False b r obtain b2 b3 where
    p: "drop_updated fc bs = Inr b2" "drop_deleted fc b2 = Inr b3"
      "append_updated fc b3 = Inr ids" and n: "n = n1"
    by (auto simp: collect_ids_def split: sum.splits)
  from baseline_ids_first[OF b[unfolded r] srv inv, of api'] have
    f: "served ent n1" "cache_extends s n1" "itemCache n1 = itemCache s" "list_all plain_id bs"
    "\<And>t. cache_extends n1 t \<Longrightarrow> baseline_ids api' coll pkFinal key t = (Inr bs, t)" by simp_all
  from append_updated_Inr[OF p(3)] obtain us where
    us: "append_updated fc [] = Inr us" "ids = b3 @ us" by blast
  have "set b3 \<subseteq> set bs" using drop_updated_subset[OF p(1)] drop_deleted_subset[OF p(2)] by blast
  then have pl: "list_all plain_id ids" using f(4) pu us by (auto simp: list_all_iff)
  have "collect_ids api' coll pkFinal m fc key t = (Inr ids, t)" if "cache_extends n t" for t
    using f(5)[of t] that n False p by (simp add: collect_ids_def)
  then show ?thesis using f pl n by simp
qed

subsection \<open>The entities\<close>

lemma load_items_first:
  assumes l: "load_items api rc ids s = (Inr items, n)"
    and srv: "entity_server api ent" and inv: "served ent s"
    and pl: "list_all plain_id ids" and ne: "ids \<noteq> []"
  shows "items = map (\<lambda>i. ent (items_path rc) (to_string i)) ids
       \<and> (\<forall>i\<in>set ids. \<not> nullish (ent (items_path rc) (to_string i))
                        \<and> id_key (ent (items_path rc) (to_string i)) = to_string i)
       \<and> list_all storable items \<and> \<not> inherited rc
       \<and> fieldCache n = fieldCache s \<and> itemCache n = itemCache s"
proof -
  from l have ni: "\<not> inherited rc" by (auto simp: load_items_def split: if_splits)
  show ?thesis
  proof (cases "cache_hit (itemCache s) rc ids")
    case True
    with l ni have np: "\<not> list_ex (\<lambda>i. reads_prototype (cache_get (itemCache s) rc) (to_string i)) ids"
      and d: "deliver (map (\<lambda>i. obj_get (cache_get (itemCache s) rc) (to_string i)) ids) s
                = (Inr items, n)"
      by (auto simp: load_items_def split: if_splits)
    from d have it: "items = map (\<lambda>i. obj_get (cache_get (itemCache s) rc) (to_string i)) ids"
      and st: "list_all storable items" and n: "n = s"
      by (auto simp: deliver_def split: if_splits)
    have own: "has_key (cache_get (itemCache s) rc) (to_string i)" if "i \<in> set ids" for i
      using True np that
      by (auto simp: cache_hit_def js_has_def reads_prototype_def list_all_iff list_ex_iff)
    have e: "obj_get (cache_get (itemCache s) rc) (to_string i) = ent (items_path rc) (to_string i)
        \<and> \<not> nullish (ent (items_path rc) (to_string i))
        \<and> id_key (ent (items_path rc) (to_string i)) = to_string i" if "i \<in> set ids" for i
      using inv own[OF that] unfolding served_def by blast
    have "items = map (\<lambda>i. ent (items_path rc) (to_string i)) ids"
      unfolding it by (rule map_cong[OF refl]) (simp add: e)
    then show ?thesis using e st ni n by simp
  next
    case False
    let ?req = "GetItems (items_path rc) (join_ids ids)"
    from l ni False obtain d where r: "api (requests s) ?req = Reply d"
      and dl: "(case d of JArr xs \<Rightarrow> deliver xs (s\<lparr>requests := requests s @ [?req]\<rparr>)
                | _ \<Rightarrow> (Inl TypeError, s\<lparr>requests := requests s @ [?req]\<rparr>)) = (Inr items, n)"
      by (auto simp: load_items_def fetch_def split: response.splits)
    from srv r have d: "d = JArr (map (ent (items_path rc)) (split_sep CHR '','' (join_ids ids)))"
      and k: "\<forall>k\<in>set (split_sep CHR '','' (join_ids ids)).
                \<not> nullish (ent (items_path rc) k) \<and> id_key (ent (items_path rc) k) = k"
      unfolding entity_server_def by blast+
    note sj = split_join_ids[OF pl ne]
    from dl d have it: "items = map (ent (items_path rc)) (map to_string ids)"
      and st: "list_all storable items" and n: "n = s\<lparr>requests := requests s @ [?req]\<rparr>"
      unfolding sj by (auto simp: deliver_def split: if_splits)
    from k have "\<forall>i\<in>set ids. \<not> nullish (ent (items_path rc) (to_string i))
                        \<and> id_key (ent (items_path rc) (to_string i)) = to_string i"
      unfolding sj by simp
    then show ?thesis using it st ni n by (simp add: comp_def)
  qed
qed

lemma load_items_replay:
  assumes ni: "\<not> inherited rc"
    and own: "\<forall>i\<in>set ids. has_key (cache_get (itemCache t) rc) (to_string i)"
    and ne: "ids \<noteq> []"
    and inv: "served ent t"
    and st: "list_all storable (map (\<lambda>i. ent (items_path rc) (to_string i)) ids)"
  shows "load_items api' rc ids t = (Inr (map (\<lambda>i. ent (items_path rc) (to_string i)) ids), t)"
proof -
  from ne obtain i where "i \<in> set ids" by (cases ids) auto
  with own have hk: "has_key (itemCache t) rc" using cache_get_has_key by blast
  have e: "map (\<lambda>i. obj_get (cache_get (itemCache t) rc) (to_string i)) ids
      = map (\<lambda>i. ent (items_path rc) (to_string i)) ids"
    by (rule map_cong[OF refl]) (use own inv in \<open>auto simp: served_def\<close>)
  from load_items_own_hit[OF ni hk, of ids api'] own st show ?thesis
    unfolding e by (simp add: list_all_iff)
qed

lemma cache_get_cache_item:
  "cache_get (cache_item rc item ic) rc' =
     (if rc' = rc then obj_set (cache_get ic rc) (id_key item) item else cache_get ic rc')"
proof (cases "has_key ic rc")
  case True
  then show ?thesis by (simp add: cache_item_def cache_get_def map_of_obj_set id_key_def)
next
  case False
  then have e: "cache_get ic rc = []" by (auto simp: cache_get_def has_key_def)
  have o: "obj_set [] k v = [(k, v)]" for k and v :: jsval by (simp add: obj_set_def has_key_def)
  show ?thesis using False
    by (simp add: cache_item_def e o id_key_def) (simp add: cache_get_def map_of_obj_set)
qed

lemma cache_item_idem:
  assumes "map_of (cache_get ic rc) (id_key item) = Some item"
  shows "cache_item rc item ic = ic"
proof -
  from assms have "has_key (cache_get ic rc) (id_key item)" by (simp add: has_key_def)
  then have hk: "has_key ic rc" by (rule cache_get_has_key)
  have "obj_set (cache_get ic rc) (id_key item) item = cache_get ic rc"
    by (rule obj_set_same[OF assms])
  moreover have "obj_set ic rc (cache_get ic rc) = ic"
    by (rule obj_set_same) (simp add: map_of_cache_get hk)
  ultimately show ?thesis using hk by (simp add: cache_item_def id_key_def)
qed

lemma merge_items_fst: "fst (merge_items rc fc items s) = fst (merge_items rc fc items t)"
proof (induction items arbitrary: s t)
  case Nil
  then show ?case by simp
next
  case (Cons item items)
  let ?s1 = "s\<lparr>itemCache := cache_item rc item (itemCache s)\<rparr>"
  let ?t1 = "t\<lparr>itemCache := cache_item rc item (itemCache t)\<rparr>"
  from Cons.IH[of ?s1 ?t1] show ?case
    by (cases "merge_items rc fc items ?s1"; cases "merge_items rc fc items ?t1")
      (auto simp: and_then_def split: sum.splits)
qed

lemma merge_items_replay:
  assumes "\<forall>it\<in>set items. map_of (cache_get (itemCache t) rc) (id_key it) = Some it"
  shows "snd (merge_items rc fc items t) = t"
  using assms
proof (induction items)
  case Nil
  then show ?case by simp
next
  case (Cons item items)
  from Cons.prems have "cache_item rc item (itemCache t) = itemCache t"
    by (simp add: cache_item_idem)
  then have same: "t\<lparr>itemCache := cache_item rc item (itemCache t)\<rparr> = t" by simp
  from Cons have ih: "snd (merge_items rc fc items t) = t" by simp
  show ?case
    using same ih
    by (cases "merge_items rc fc items t") (auto simp: and_then_def split: sum.splits)
qed

lemma merge_items_first:
  assumes m: "merge_items rc fc items s = (Inr d, s')"
    and wf: "\<forall>it\<in>set items. \<not> nullish it \<and> it = ent (items_path rc) (id_key it)"
    and inv: "served ent s"
  shows "served ent s' \<and> cache_extends s s' \<and> fieldCache s' = fieldCache s
       \<and> (\<forall>it\<in>set items. has_key (cache_get (itemCache s') rc) (id_key it))"
  using m wf inv
proof (induction items arbitrary: s d)
  case Nil
  then show ?case by (simp add: cache_extends_refl)
next
  case (Cons item items)
  let ?s1 = "s\<lparr>itemCache := cache_item rc item (itemCache s)\<rparr>"
  from Cons.prems(2) have it: "\<not> nullish item" "item = ent (items_path rc) (id_key item)"
    and wf': "\<forall>it\<in>set items. \<not> nullish it \<and> it = ent (items_path rc) (id_key it)" by auto
  from Cons.prems(1) it(1) obtain d' where m': "merge_items rc fc items ?s1 = (Inr d', s')"
    by (cases "merge_items rc fc items ?s1") (auto simp: and_then_def split: sum.splits)
  have sv: "served ent ?s1"
    using Cons.prems(3) it unfolding served_def
    by (auto simp: cache_get_cache_item has_key_obj_set obj_get_obj_set)
  have ex: "cache_extends s ?s1"
    unfolding cache_extends_def by (auto simp: cache_get_cache_item has_key_obj_set)
  have hk: "has_key (cache_get (itemCache ?s1) rc) (id_key item)"
    by (simp add: cache_get_cache_item has_key_obj_set)
  from Cons.IH[OF m' wf' sv] have ih: "served ent s'" "cache_extends ?s1 s'"
    "fieldCache s' = fieldCache ?s1"
    "\<forall>it\<in>set items. has_key (cache_get (itemCache s') rc) (id_key it)" by simp_all
  from ih(2) hk have "has_key (cache_get (itemCache s') rc) (id_key item)"
    unfolding cache_extends_def by blast
  with ih cache_extends_trans[OF ex ih(2)] show ?case by simp
qed

lemma resolve_items_first:
  assumes ri: "resolve_items api m rel fc ids s = (Inr d, s')"
    and srv: "entity_server api ent" and inv: "served ent s"
    and pl: "list_all plain_id ids"
  shows "served ent s' \<and> cache_extends s s' \<and> fieldCache s' = fieldCache s
       \<and> (\<forall>t. cache_extends s' t \<and> served ent t
              \<longrightarrow> resolve_items api' m rel fc ids t = (Inr d, t))"
proof (cases "ids \<noteq> [] \<and> (\<exists>rc. related_of m rel = Some rc \<and> rc \<noteq> [])")
  case False
  then have "resolve_items a m rel fc ids t = (Inr [], t)" for a t
    by (auto simp: resolve_items_def split: option.splits)
  with ri inv show ?thesis by (simp add: cache_extends_refl)
next
  case True
  then obtain rc where ne: "ids \<noteq> []" and rc: "related_of m rel = Some rc" "rc \<noteq> []" by blast
  have unf: "resolve_items a m rel fc ids t
      = and_then (load_items a rc ids t) (\<lambda>data s'. merge_items rc fc data s')" for a t
    using ne rc by (simp add: resolve_items_def)
  obtain r n where l: "load_items api rc ids s = (r, n)" by (cases "load_items api rc ids s")
  with ri obtain items where r: "r = Inr items" unfolding unf by (cases r) auto
  let ?E = "map (\<lambda>i. ent (items_path rc) (to_string i)) ids"
  from load_items_first[OF l[unfolded r] srv inv pl ne] have
    it: "items = ?E"
    and k: "\<forall>i\<in>set ids. \<not> nullish (ent (items_path rc) (to_string i))
                        \<and> id_key (ent (items_path rc) (to_string i)) = to_string i"
    and st: "list_all storable items" and ni: "\<not> inherited rc"
    and c: "fieldCache n = fieldCache s" "itemCache n = itemCache s" by blast+
  have m: "merge_items rc fc items n = (Inr d, s')" using ri l r unfolding unf by simp
  have wf: "\<forall>it\<in>set items. \<not> nullish it \<and> it = ent (items_path rc) (id_key it)"
    unfolding it using k by auto
  have svn: "served ent n" using inv c by (simp add: served_def)
  have exn: "cache_extends s n" using c by (simp add: cache_extends_def)
  from merge_items_first[OF m wf svn] have f: "served ent s'" "cache_extends n s'"
    "fieldCache s' = fieldCache n"
    "\<forall>it\<in>set items. has_key (cache_get (itemCache s') rc) (id_key it)" by simp_all
  have "resolve_items api' m rel fc ids t = (Inr d, t)"
    if t: "cache_extends s' t" "served ent t" for t
  proof -
    have own: "\<forall>i\<in>set ids. has_key (cache_get (itemCache t) rc) (to_string i)"
    proof
      fix i assume i: "i \<in> set ids"
      then have "ent (items_path rc) (to_string i) \<in> set items" unfolding it by simp
      with f(4) have "has_key (cache_get (itemCache s') rc) (id_key (ent (items_path rc) (to_string i)))"
        by blast
      with k i have "has_key (cache_get (itemCache s') rc) (to_string i)" by simp
      with t(1) show "has_key (cache_get (itemCache t) rc) (to_string i)"
        unfolding cache_extends_def by blast
    qed
    have l2: "load_items api' rc ids t = (Inr items, t)"
      unfolding it by (rule load_items_replay[OF ni own ne t(2)]) (use st it in simp)
    have c2: "\<forall>it\<in>set items. map_of (cache_get (itemCache t) rc) (id_key it) = Some it"
    proof
      fix x assume x: "x \<in> set items"
      then obtain i where i: "i \<in> set ids" "x = ent (items_path rc) (to_string i)"
        unfolding it by auto
      with k have ik: "id_key x = to_string i" by simp
      from own i have hk: "has_key (cache_get (itemCache t) rc) (to_string i)" by blast
      with t(2) have "obj_get (cache_get (itemCache t) rc) (to_string i) = x"
        unfolding served_def i(2) by blast
      with hk show "map_of (cache_get (itemCache t) rc) (id_key x) = Some x"
        unfolding ik by (simp add: map_of_obj_get)
    qed
    have "fst (merge_items rc fc items t) = Inr d" using merge_items_fst[of rc fc items t n] m by simp
    moreover have "snd (merge_items rc fc items t) = t" by (rule merge_items_replay[OF c2])
    ultimately have "merge_items rc fc items t = (Inr d, t)" by (simp add: prod_eq_iff)
    then show ?thesis unfolding unf l2 by simp
  qed
  then show ?thesis using f cache_extends_trans[OF exn f(2)] c by simp
qed

subsection \<open>A field, and the loop\<close>

lemma resolve_field_first:
  assumes rf: "resolve_field api coll pkFinal val oldValObj rel key s = (Inr v, s')"
    and srv: "entity_server api ent"
    and inv: "served ent (snd (normalize_changes (collection rel = coll)
                (raw_changes val (field_name (collection rel = coll) rel)) (obj_get oldValObj key) s))"
    and stable: "\<not> resets (collection rel = coll)
                   (obj_get val (field_name (collection rel = coll) rel)) (obj_get val key)"
    and pu: "case append_updated (normalized (collection rel = coll)
                    (raw_changes val (field_name (collection rel = coll) rel))) [] of
               Inl e \<Rightarrow> True
             | Inr us \<Rightarrow> list_all plain_id us"
  shows "served ent s'
       \<and> cache_extends (snd (normalize_changes (collection rel = coll)
                (raw_changes val (field_name (collection rel = coll) rel)) (obj_get oldValObj key) s)) s'
       \<and> (\<forall>t. cache_extends s' t \<and> served ent t
              \<longrightarrow> resolve_field api' coll pkFinal val val rel key t = (Inr v, t))"
proof -
  let ?m = "collection rel = coll"
  let ?raw = "raw_changes val (field_name ?m rel)"
  let ?fc = "normalized ?m ?raw"
  let ?n = "snd (normalize_changes ?m ?raw (obj_get oldValObj key) s)"
  have unf: "resolve_field a coll pkFinal val ov rel key u =
      and_then (collect_ids a coll pkFinal ?m ?fc key (snd (normalize_changes ?m ?raw (obj_get ov key) u)))
        (\<lambda>ids t. and_then (resolve_items a ?m rel ?fc ids t)
           (\<lambda>d t'. (Inr (field_value ?m (append_created ?fc d)), t')))" for a ov u
    by (simp add: resolve_field_def Let_def normalize_fst)
  obtain r n1 where c: "collect_ids api coll pkFinal ?m ?fc key ?n = (r, n1)"
    by (cases "collect_ids api coll pkFinal ?m ?fc key ?n")
  with rf obtain ids where r: "r = Inr ids" unfolding unf by (cases r) auto
  obtain r2 n2 where ri: "resolve_items api ?m rel ?fc ids n1 = (r2, n2)"
    by (cases "resolve_items api ?m rel ?fc ids n1")
  with rf c r obtain d where r2: "r2 = Inr d" unfolding unf by (cases r2) auto
  from rf c r ri r2 have v: "v = field_value ?m (append_created ?fc d)" and n2: "n2 = s'"
    unfolding unf by simp_all
  from collect_ids_first[OF c[unfolded r] srv inv pu, of api'] have
    f1: "served ent n1" "cache_extends ?n n1" "list_all plain_id ids"
    "\<And>t. cache_extends n1 t \<Longrightarrow> collect_ids api' coll pkFinal ?m ?fc key t = (Inr ids, t)"
    by simp_all
  from resolve_items_first[OF ri[unfolded r2 n2] srv f1(1,3), of api'] have
    f2: "served ent s'" "cache_extends n1 s'"
    "\<And>t. cache_extends s' t \<Longrightarrow> served ent t
        \<Longrightarrow> resolve_items api' ?m rel ?fc ids t = (Inr d, t)" by simp_all
  have "resolve_field api' coll pkFinal val val rel key t = (Inr v, t)"
    if t: "cache_extends s' t" "served ent t" for t
  proof -
    have n: "snd (normalize_changes ?m ?raw (obj_get val key) t) = t"
      by (rule normalize_no_reset[OF stable])
    have "cache_extends n1 t" by (rule cache_extends_trans[OF f2(2) t(1)])
    from f1(4)[OF this] f2(3)[OF t] show ?thesis unfolding unf n v by simp
  qed
  with f2(1) cache_extends_trans[OF f1(2) f2(2)] show ?thesis by simp
qed

lemma resolve_fields_skip:
  "\<not> resolved p key \<Longrightarrow>
     resolve_fields a p pkFinal valObj oldValObj (key # keys) rd s
       = resolve_fields a p pkFinal valObj oldValObj keys rd s"
  by (auto simp: resolved_def split: option.splits)

lemma resolve_fields_step:
  assumes "resolved p key"
  obtains rel where "find (\<lambda>rel. relation_mentions rel key) (relations p) = Some rel"
    and "\<And>a valObj oldValObj keys rd s.
      resolve_fields a p pkFinal valObj oldValObj (key # keys) rd s =
        (if key = ''__proto__''
            \<or> reads_prototype valObj (field_name (collection rel = collectionName p) rel)
         then (Inl Unsupported, s)
         else case resolve_field a (collectionName p) pkFinal valObj oldValObj rel key s of
                (Inl e, s') \<Rightarrow> (Inl e, s')
              | (Inr v, s') \<Rightarrow>
                  resolve_fields a p pkFinal valObj oldValObj keys (obj_set rd key v) s')"
  using assms by (auto simp: resolved_def split: option.splits)

lemma resolve_fields_first:
  assumes run: "resolve_fields api p pkFinal val oldValObj keys rd s = (Inr rd', s')"
    and srv: "entity_server api ent" and inv: "served ent s"
    and nr: "\<forall>key\<in>set keys. resolved p key \<longrightarrow> \<not> field_resets p val oldValObj key"
    and st: "\<forall>key\<in>set keys. \<not> field_resets p val val key"
    and pu: "\<forall>key\<in>set keys.
               case find (\<lambda>rel. relation_mentions rel key) (relations p) of
                 None \<Rightarrow> True
               | Some rel \<Rightarrow>
                   (case append_updated
                           (normalized (collection rel = collectionName p)
                              (raw_changes val (field_name (collection rel = collectionName p) rel)))
                           [] of
                      Inl e \<Rightarrow> True
                    | Inr us \<Rightarrow> list_all plain_id us)"
  shows "served ent s' \<and> cache_extends s s'
       \<and> (\<forall>t. cache_extends s' t \<and> served ent t
              \<longrightarrow> resolve_fields api' p pkFinal val val keys rd t = (Inr rd', t))"
  using run inv nr st pu
proof (induction keys arbitrary: rd s)
  case Nil
  then show ?case by (simp add: cache_extends_refl)
next
  case (Cons key keys)
  show ?case
  proof (cases "resolved p key")
    case False
    from Cons.IH[of rd s] Cons.prems show ?thesis
      unfolding resolve_fields_skip[OF False] by simp
  next
    case True
    from resolve_fields_step[OF True, of pkFinal] obtain rel where
      rel: "find (\<lambda>rel. relation_mentions rel key) (relations p) = Some rel"
      and unf: "\<And>a valObj oldValObj keys rd s.
        resolve_fields a p pkFinal valObj oldValObj (key # keys) rd s =
          (if key = ''__proto__''
              \<or> reads_prototype valObj (field_name (collection rel = collectionName p) rel)
           then (Inl Unsupported, s)
           else case resolve_field a (collectionName p) pkFinal valObj oldValObj rel key s of
                  (Inl e, s') \<Rightarrow> (Inl e, s')
                | (Inr v, s') \<Rightarrow>
                    resolve_fields a p pkFinal valObj oldValObj keys (obj_set rd key v) s')"
      by blast
    let ?m = "collection rel = collectionName p"
    from Cons.prems(1) have ok: "\<not> (key = ''__proto__'' \<or> reads_prototype val (field_name ?m rel))"
      unfolding unf by (auto split: if_splits)
    obtain r s1 where f: "resolve_field api (collectionName p) pkFinal val oldValObj rel key s = (r, s1)"
      by (cases "resolve_field api (collectionName p) pkFinal val oldValObj rel key s")
    with Cons.prems(1) ok obtain v where r: "r = Inr v" unfolding unf by (cases r) auto
    from Cons.prems(1) ok f r have rest:
      "resolve_fields api p pkFinal val oldValObj keys (obj_set rd key v) s1 = (Inr rd', s')"
      unfolding unf by simp
    from Cons.prems(3) True rel have nrk:
      "\<not> resets ?m (obj_get val (field_name ?m rel)) (obj_get oldValObj key)"
      by (simp add: field_resets_def)
    from Cons.prems(4) rel have stk:
      "\<not> resets ?m (obj_get val (field_name ?m rel)) (obj_get val key)"
      by (simp add: field_resets_def)
    from Cons.prems(5) rel have puk:
      "case append_updated (normalized ?m (raw_changes val (field_name ?m rel))) [] of
         Inl e \<Rightarrow> True | Inr us \<Rightarrow> list_all plain_id us" by simp
    have n: "snd (normalize_changes ?m (raw_changes val (field_name ?m rel)) (obj_get oldValObj key) s) = s"
      by (rule normalize_no_reset[OF nrk])
    from resolve_field_first[OF f[unfolded r] srv _ stk puk, of api'] Cons.prems(2) have
      f1: "served ent s1" "cache_extends s s1"
      "\<And>t. cache_extends s1 t \<Longrightarrow> served ent t
          \<Longrightarrow> resolve_field api' (collectionName p) pkFinal val val rel key t = (Inr v, t)"
      unfolding n by simp_all
    from Cons.IH[OF rest f1(1)] Cons.prems(3,4,5) have ih:
      "served ent s'" "cache_extends s1 s'"
      "\<And>t. cache_extends s' t \<Longrightarrow> served ent t
          \<Longrightarrow> resolve_fields api' p pkFinal val val keys (obj_set rd key v) t = (Inr rd', t)"
      by simp_all
    have "resolve_fields api' p pkFinal val val (key # keys) rd t = (Inr rd', t)"
      if t: "cache_extends s' t" "served ent t" for t
    proof -
      have "cache_extends s1 t" by (rule cache_extends_trans[OF ih(2) t(1)])
      from f1(3)[OF this t(2)] ih(3)[OF t] ok show ?thesis unfolding unf by simp
    qed
    with ih(1) cache_extends_trans[OF f1(2) ih(2)] show ?thesis by simp
  qed
qed

text \<open>The first field that the loop resolves may meet a reset: nothing that the run
  caches is lost by it.\<close>

lemma resolve_fields_first_reset:
  assumes run: "resolve_fields api p pkFinal val oldValObj keys rd s = (Inr rd', s')"
    and srv: "entity_server api ent" and inv: "served ent s"
    and nr: "list_all (\<lambda>key. \<not> field_resets p val oldValObj key) (tl (filter (resolved p) keys))"
    and st: "\<forall>key\<in>set keys. \<not> field_resets p val val key"
    and pu: "\<forall>key\<in>set keys.
               case find (\<lambda>rel. relation_mentions rel key) (relations p) of
                 None \<Rightarrow> True
               | Some rel \<Rightarrow>
                   (case append_updated
                           (normalized (collection rel = collectionName p)
                              (raw_changes val (field_name (collection rel = collectionName p) rel)))
                           [] of
                      Inl e \<Rightarrow> True
                    | Inr us \<Rightarrow> list_all plain_id us)"
  shows "served ent s'
       \<and> (\<forall>t. cache_extends s' t \<and> served ent t
              \<longrightarrow> resolve_fields api' p pkFinal val val keys rd t = (Inr rd', t))"
  using run inv nr st pu
proof (induction keys arbitrary: rd s)
  case Nil
  then show ?case by simp
next
  case (Cons key keys)
  show ?case
  proof (cases "resolved p key")
    case False
    from Cons.IH[of rd s] Cons.prems False show ?thesis
      unfolding resolve_fields_skip[OF False] by simp
  next
    case True
    from resolve_fields_step[OF True, of pkFinal] obtain rel where
      rel: "find (\<lambda>rel. relation_mentions rel key) (relations p) = Some rel"
      and unf: "\<And>a valObj oldValObj keys rd s.
        resolve_fields a p pkFinal valObj oldValObj (key # keys) rd s =
          (if key = ''__proto__''
              \<or> reads_prototype valObj (field_name (collection rel = collectionName p) rel)
           then (Inl Unsupported, s)
           else case resolve_field a (collectionName p) pkFinal valObj oldValObj rel key s of
                  (Inl e, s') \<Rightarrow> (Inl e, s')
                | (Inr v, s') \<Rightarrow>
                    resolve_fields a p pkFinal valObj oldValObj keys (obj_set rd key v) s')"
      by blast
    let ?m = "collection rel = collectionName p"
    let ?n = "snd (normalize_changes ?m (raw_changes val (field_name ?m rel)) (obj_get oldValObj key) s)"
    from Cons.prems(1) have ok: "\<not> (key = ''__proto__'' \<or> reads_prototype val (field_name ?m rel))"
      unfolding unf by (auto split: if_splits)
    obtain r s1 where f: "resolve_field api (collectionName p) pkFinal val oldValObj rel key s = (r, s1)"
      by (cases "resolve_field api (collectionName p) pkFinal val oldValObj rel key s")
    with Cons.prems(1) ok obtain v where r: "r = Inr v" unfolding unf by (cases r) auto
    from Cons.prems(1) ok f r have rest:
      "resolve_fields api p pkFinal val oldValObj keys (obj_set rd key v) s1 = (Inr rd', s')"
      unfolding unf by simp
    from Cons.prems(3) True have nr': "\<forall>k\<in>set keys. resolved p k \<longrightarrow> \<not> field_resets p val oldValObj k"
      by (simp add: list_all_iff)
    from Cons.prems(4) rel have stk:
      "\<not> resets ?m (obj_get val (field_name ?m rel)) (obj_get val key)"
      by (simp add: field_resets_def)
    from Cons.prems(5) rel have puk:
      "case append_updated (normalized ?m (raw_changes val (field_name ?m rel))) [] of
         Inl e \<Rightarrow> True | Inr us \<Rightarrow> list_all plain_id us" by simp
    have "?n = s \<or> ?n = clear_caches s"
      by (auto simp: normalize_state clear_caches_def)
    then have svn: "served ent ?n" using Cons.prems(2) served_clear[of ent s] by auto
    from resolve_field_first[OF f[unfolded r] srv svn stk puk, of api'] have
      f1: "served ent s1"
      "\<And>t. cache_extends s1 t \<Longrightarrow> served ent t
          \<Longrightarrow> resolve_field api' (collectionName p) pkFinal val val rel key t = (Inr v, t)"
      by simp_all
    from resolve_fields_first[OF rest srv f1(1) nr', of api'] Cons.prems(4,5) have ih:
      "served ent s'" "cache_extends s1 s'"
      "\<And>t. cache_extends s' t \<Longrightarrow> served ent t
          \<Longrightarrow> resolve_fields api' p pkFinal val val keys (obj_set rd key v) t = (Inr rd', t)"
      by simp_all
    have "resolve_fields api' p pkFinal val val (key # keys) rd t = (Inr rd', t)"
      if t: "cache_extends s' t" "served ent t" for t
    proof -
      have "cache_extends s1 t" by (rule cache_extends_trans[OF ih(2) t(1)])
      from f1(2)[OF this t(2)] ih(3)[OF t] ok show ?thesis unfolding unf by simp
    qed
    with ih(1) show ?thesis by simp
  qed
qed

text \<open>The server of the blog is such a server.\<close>

lemma blog_server: "entity_server blog_api blog_entities"
proof -
  have s1: "split_sep CHR '','' ''1,2'' = [''1'', ''2'']"
    and s2: "split_sep CHR '','' ''1,2,3'' = [''1'', ''2'', ''3'']"
    and s3: "split_sep CHR '','' ''7'' = [''7'']" by code_simp+
  have e: "id_key (comment 1 ''a'') = ''1''" "id_key (comment 2 ''b'') = ''2''"
    "id_key (comment 3 ''c'') = ''3''" "id_key user7 = ''7''" by code_simp+
  have n: "\<not> nullish (comment n t)" "\<not> nullish user7" for n t
    by (simp_all add: nullish_def comment_def user7_def)
  have p: "list_all plain_id (js_concat [] (JArr [JNum 1, JNum 2, JNum 3]))" by code_simp
  show ?thesis
    unfolding entity_server_def
    by (auto simp: blog_api_def blog_entities_def s1 s2 s3 e n p split: if_splits)
qed


section \<open>One-to-many reconciliation\<close>





section \<open>Many-to-one normalization\<close>

text \<open>
  Claim C2. For a many-to-one field a number or string \<open>v\<close> is normalized to
  \<^verbatim>\<open>{update: [{id: v}]}\<close>, an object with the key \<^verbatim>\<open>id\<close> to \<^verbatim>\<open>{update: [that object]}\<close> and
  any other object to \<^verbatim>\<open>{create: [that object]}\<close> (a copy with the same keys and values).
  The value of the field is the first resolved element: for an update the first entity
  that the item cache or the API delivers for the id, with the update's partial data
  merged over it when the ids agree (\<^verbatim>\<open>undefined\<close> when nothing is delivered); for a
  creation the object itself. The raw value \<^verbatim>\<open>{id: 7, note: "x"}\<close> resolves to user 7 with
  the note.
\<close>

theorem many_to_one_normalization:
  "(typeof v = ''number'' \<or> typeof v = ''string'' \<longrightarrow>
      fst (normalize_changes True v oldRaw s) = JObj [(''update'', JArr [JObj [(''id'', v)]])])
   \<and> (has_key ps ''id'' \<longrightarrow>
      fst (normalize_changes True (JObj ps) oldRaw s) = JObj [(''update'', JArr [JObj ps])])
   \<and> (\<not> has_key ps ''id'' \<and> js_ordered ps \<longrightarrow>
      fst (normalize_changes True (JObj ps) oldRaw s) = JObj [(''create'', JArr [JObj ps])])
   \<and> (collection rel = coll
       \<and> fst (normalize_changes True (raw_changes valObj (field_name True rel))
                (obj_get oldValObj key) s') = JObj [(''update'', JArr [u])]
       \<and> \<not> nullish u
       \<and> related_collection rel = Some rc \<and> rc \<noteq> []
       \<and> load_items api rc [get_prop u ''id'']
            (snd (normalize_changes True (raw_changes valObj (field_name True rel))
                    (obj_get oldValObj key) s')) = (Inr items, sl)
       \<and> list_all (\<lambda>item. \<not> nullish item) items
      \<longrightarrow> fst (resolve_field api coll pkFinal valObj oldValObj rel key s')
            = Inr (case items of [] \<Rightarrow> JUndefined | item # rest \<Rightarrow> merged [u] item)
          \<and> (\<forall>item. strict_eq (get_prop item ''id'') (get_prop u ''id'')
                \<longrightarrow> merged [u] item = JObj (spread (spread [] item) u)))
   \<and> (collection rel = coll
       \<and> fst (normalize_changes True (raw_changes valObj (field_name True rel))
                (obj_get oldValObj key) s') = JObj [(''create'', JArr [c])]
      \<longrightarrow> fst (resolve_field api coll pkFinal valObj oldValObj rel key s') = Inr c)"
  using normalize_m2o_scalar[of v oldRaw s] normalize_m2o_with_id[of ps oldRaw s]
    normalize_m2o_without_id[of ps oldRaw s] spread_copy[of ps]
    resolve_field_m2o_update[of rel coll valObj oldValObj key s' u rc api items sl pkFinal]
    resolve_field_m2o_create[of rel coll valObj oldValObj key s' c api pkFinal]
  by (auto simp: merged_def in_flight_single)

theorem many_to_one_normalization_witness:
  "fst (normalize_changes True (JNum 7) JUndefined (init_engine JNull))
     = JObj [(''update'', JArr [JObj [(''id'', JNum 7)]])]
   \<and> fst (normalize_changes True (JObj noted_author) JUndefined (init_engine JNull))
     = JObj [(''update'', JArr [JObj noted_author])]
   \<and> fst (resolve_field blog_api ''posts'' (JNum 10) [(''author'', JObj noted_author)] []
           author_relation ''author'' (init_engine JNull))
     = Inr (JObj [(''id'', JNum 7), (''name'', JStr ''Ann''), (''note'', JStr ''x'')])
   \<and> fst (normalize_changes True (JObj new_author) JUndefined (init_engine JNull))
     = JObj [(''create'', JArr [JObj new_author])]
   \<and> fst (resolve_field blog_api ''posts'' (JNum 10) [(''author'', JObj new_author)] []
           author_relation ''author'' (init_engine JNull))
     = Inr (JObj new_author)"
proof -
  note A = many_to_one_normalization
    [where v = "JNum 7" and oldRaw = JUndefined and s = "init_engine JNull"
       and ps = noted_author and rel = author_relation and coll = "''posts''"
       and valObj = "[(''author'', JObj noted_author)]" and oldValObj = "[]"
       and key = "''author''" and s' = "init_engine JNull" and u = "JObj noted_author"
       and rc = "''directus_users''" and api = blog_api and items = "[user7]"
       and sl = "(init_engine JNull)\<lparr>requests := [GetItems ''/users'' ''7'']\<rparr>"
       and pkFinal = "JNum 10"]
  have a1: "typeof (JNum 7) = ''number'' \<or> typeof (JNum 7) = ''string''" by simp
  have a2: "has_key noted_author ''id''" by code_simp
  have a4: "collection author_relation = ''posts''
       \<and> fst (normalize_changes True
                (raw_changes [(''author'', JObj noted_author)] (field_name True author_relation))
                (obj_get [] ''author'') (init_engine JNull))
           = JObj [(''update'', JArr [JObj noted_author])]
       \<and> \<not> nullish (JObj noted_author)
       \<and> related_collection author_relation = Some ''directus_users'' \<and> ''directus_users'' \<noteq> []
       \<and> load_items blog_api ''directus_users'' [get_prop (JObj noted_author) ''id'']
            (snd (normalize_changes True
                (raw_changes [(''author'', JObj noted_author)] (field_name True author_relation))
                (obj_get [] ''author'') (init_engine JNull)))
           = (Inr [user7], (init_engine JNull)\<lparr>requests := [GetItems ''/users'' ''7'']\<rparr>)
       \<and> list_all (\<lambda>item. \<not> nullish item) [user7]"
    by code_simp
  have e: "(case [user7] of [] \<Rightarrow> JUndefined | item # rest \<Rightarrow> merged [JObj noted_author] item)
      = JObj [(''id'', JNum 7), (''name'', JStr ''Ann''), (''note'', JStr ''x'')]"
    by code_simp
  from A a1 a2 a4 have ra:
    "fst (normalize_changes True (JNum 7) JUndefined (init_engine JNull))
       = JObj [(''update'', JArr [JObj [(''id'', JNum 7)]])]"
    "fst (normalize_changes True (JObj noted_author) JUndefined (init_engine JNull))
       = JObj [(''update'', JArr [JObj noted_author])]"
    "fst (resolve_field blog_api ''posts'' (JNum 10) [(''author'', JObj noted_author)] []
           author_relation ''author'' (init_engine JNull))
       = Inr (case [user7] of [] \<Rightarrow> JUndefined | item # rest \<Rightarrow> merged [JObj noted_author] item)"
    by blast+
  note B = many_to_one_normalization
    [where oldRaw = JUndefined and s = "init_engine JNull"
       and ps = new_author and rel = author_relation and coll = "''posts''"
       and valObj = "[(''author'', JObj new_author)]" and oldValObj = "[]"
       and key = "''author''" and s' = "init_engine JNull" and c = "JObj new_author"
       and api = blog_api and pkFinal = "JNum 10"]
  have b3: "\<not> has_key new_author ''id'' \<and> js_ordered new_author" by code_simp
  have b5: "collection author_relation = ''posts''
       \<and> fst (normalize_changes True
                (raw_changes [(''author'', JObj new_author)] (field_name True author_relation))
                (obj_get [] ''author'') (init_engine JNull))
           = JObj [(''create'', JArr [JObj new_author])]"
    by code_simp
  from B b3 b5 have rb:
    "fst (normalize_changes True (JObj new_author) JUndefined (init_engine JNull))
       = JObj [(''create'', JArr [JObj new_author])]"
    "fst (resolve_field blog_api ''posts'' (JNum 10) [(''author'', JObj new_author)] []
           author_relation ''author'' (init_engine JNull))
       = Inr (JObj new_author)"
    by blast+
  from ra rb show ?thesis unfolding e by blast
qed

section \<open>Idempotence\<close>

text \<open>
  Claim C7, as amended. Let a recomputation succeed (state \<open>sf\<close>) under these conditions:
  \<^item> no key of the previous record is missing in the record (the first invocation has no
    previous record);
  \<^item> the server answers every read of entities with the entity of each requested id, in
    the requested order, and every single-field read with plain ids (\<open>entity_server\<close>),
    and what the caches held before comes from this server (\<open>served\<close>; a fresh session
    has empty caches);
  \<^item> no field that the loop resolves after the first one meets a reset transition
    (\<open>no_late_reset\<close>);
  \<^item> the ids of the record's update lists are plain (\<open>plain_updates\<close>).

  If the callback then runs again with the identical record, none of whose relational
  fields meets a reset against its own value (\<open>stable_shapes\<close>), then with any API this
  second run issues no request, leaves both caches as they are and emits the record that
  the first run has emitted: the state after it is the state before it.
\<close>

theorem second_recomputation_from_caches:
  assumes first: "watch_callback api p val oldVal s = (Emitted, sf)"
    and kept: "case oldVal of None \<Rightarrow> True | Some ov \<Rightarrow> fst ` set ov \<subseteq> fst ` set val"
    and srv: "entity_server api ent"
    and inv: "served ent s"
    and late: "no_late_reset p val (case oldVal of None \<Rightarrow> [] | Some ov \<Rightarrow> ov)"
    and st: "stable_shapes p val"
    and pu: "plain_updates p val"
  shows "watch_callback api' p val (Some val) sf = (Emitted, sf)"
proof -
  let ?old = "case oldVal of None \<Rightarrow> [] | Some ov \<Rightarrow> ov"
  let ?pk = "if truthy (obj_get val ''id'') then obj_get val ''id'' else pk p"
  let ?R = "\<lambda>rd. obj_set (spread (spread [] (JObj val)) (JObj rd)) ''__currentUser'' (currentUser p)"
  have sub: "fst ` set ?old \<subseteq> fst ` set val" using kept by (cases oldVal) auto
  have ar: "add_removed_keys ?old val = val" by (rule add_removed_keys_subset[OF sub])
  from first have np: "\<not> has_key val ''__proto__''"
    by (auto simp: watch_callback_def Let_def split: if_splits)
  obtain r s' where rf: "resolve_fields api p ?pk val ?old (map fst val) [] s = (r, s')"
    by (cases "resolve_fields api p ?pk val ?old (map fst val) [] s")
  from first rf obtain rd where r: "r = Inr rd" and sf: "sf = s'\<lparr>finalValues := ?R rd\<rparr>"
    by (cases r) (auto simp: watch_callback_def Let_def ar split: if_splits)
  have nr: "list_all (\<lambda>key. \<not> field_resets p val ?old key) (tl (filter (resolved p) (map fst val)))"
    using late by (simp add: no_late_reset_def)
  have stk: "\<forall>key\<in>set (map fst val). \<not> field_resets p val val key"
    using st by (auto simp: stable_shapes_def field_resets_def list_all_iff split: option.splits)
  have puk: "\<forall>key\<in>set (map fst val).
               case find (\<lambda>rel. relation_mentions rel key) (relations p) of
                 None \<Rightarrow> True
               | Some rel \<Rightarrow>
                   (case append_updated
                           (normalized (collection rel = collectionName p)
                              (raw_changes val (field_name (collection rel = collectionName p) rel)))
                           [] of
                      Inl e \<Rightarrow> True
                    | Inr us \<Rightarrow> list_all plain_id us)"
    using pu unfolding plain_updates_def list_all_iff .
  from resolve_fields_first_reset[OF rf[unfolded r] srv inv nr stk puk, of api'] have
    sv: "served ent s'"
    and rp: "\<And>t. cache_extends s' t \<Longrightarrow> served ent t
          \<Longrightarrow> resolve_fields api' p ?pk val val (map fst val) [] t = (Inr rd, t)" by simp_all
  have "resolve_fields api' p ?pk val val (map fst val) [] s' = (Inr rd, s')"
    by (rule rp[OF cache_extends_refl sv])
  then have "resolve_fields api' p ?pk val val (map fst val) [] sf = (Inr rd, sf)"
    unfolding sf by (simp add: resolve_fields_frame)
  moreover have "sf\<lparr>finalValues := ?R rd\<rparr> = sf" unfolding sf by simp
  ultimately show ?thesis
    using np by (simp add: watch_callback_def shouldUpdate_same add_removed_keys_same Let_def)
qed

theorem second_recomputation_from_caches_witness:
  "watch_callback blog_api blog_props edited_post None (init_engine JNull) = (Emitted, blog_state)
   \<and> watch_callback no_api blog_props edited_post (Some edited_post) blog_state
       = (Emitted, blog_state)"
proof -
  have first: "watch_callback blog_api blog_props edited_post None (init_engine JNull)
      = (Emitted, blog_state)" by code_simp
  have late: "no_late_reset blog_props edited_post (case None of None \<Rightarrow> [] | Some ov \<Rightarrow> ov)"
    by code_simp
  have st: "stable_shapes blog_props edited_post" by code_simp
  have pu: "plain_updates blog_props edited_post" by code_simp
  from second_recomputation_from_caches
    [OF first _ blog_server served_init late st pu, of no_api] first
  show ?thesis by simp
qed

text \<open>
  Claim C7 as stated fails: a successful recomputation need not leave the caches complete.
  On the first invocation for a post with the two one-to-many fields \<^verbatim>\<open>comments\<close> and
  \<^verbatim>\<open>tags\<close>, both holding arrays, the reset of line 129 for \<^verbatim>\<open>tags\<close> empties the caches that
  the loop has just filled for \<^verbatim>\<open>comments\<close>. The second run with the identical record reads
  the baseline and the entities of \<^verbatim>\<open>comments\<close> from the API again.
\<close>

theorem cache_reset_refetch_counterexample:
  "fst (watch_callback lists_api lists_props lists_post None (init_engine JNull)) = Emitted
   \<and> requests (snd (watch_callback lists_api lists_props lists_post (Some lists_post) lists_state))
       = requests lists_state
         @ [GetField ''items/posts/10'' ''comments'', GetItems ''items/comments'' ''1'']"
  by code_simp

text \<open>
  The other conditions are needed as well. When the server answers in the order of the
  entities' ids, the first run emits the entities in the order of the reply and the second
  one, from the cache, in the order of the ids to resolve. When a key of the previous
  record is missing, the first run emits it (with \<^verbatim>\<open>null\<close>) and the second run does not.
\<close>

lemma reply_order_example:
  "fst (watch_callback sorting_api blog_props retitled_post None (init_engine JNull)) = Emitted
   \<and> obj_get (finalValues (snd (watch_callback sorting_api blog_props retitled_post None
          (init_engine JNull)))) ''comments''
       = JArr [comment 1 ''new'', comment 2 ''b'', comment 3 ''c'']
   \<and> watch_callback no_api blog_props retitled_post (Some retitled_post)
         (snd (watch_callback sorting_api blog_props retitled_post None (init_engine JNull)))
       = (Emitted,
          (snd (watch_callback sorting_api blog_props retitled_post None (init_engine JNull)))
            \<lparr>finalValues :=
               [(''comments'', JArr [comment 2 ''b'', comment 3 ''c'', comment 1 ''new'']),
                (''__currentUser'', JNull)]\<rparr>)"
  by code_simp

lemma removed_key_example:
  "finalValues (snd (watch_callback no_api title_props [(''author'', JNum 6)]
       (Some [(''author'', JNum 5), (''title'', JStr ''x'')]) (init_engine JNull)))
     = [(''author'', JNum 6), (''title'', JNull), (''__currentUser'', JNull)]
   \<and> finalValues (snd (watch_callback no_api title_props [(''author'', JNum 6)]
       (Some [(''author'', JNum 6)])
       (snd (watch_callback no_api title_props [(''author'', JNum 6)]
          (Some [(''author'', JNum 5), (''title'', JStr ''x'')]) (init_engine JNull)))))
     = [(''author'', JNum 6), (''__currentUser'', JNull)]"
  by code_simp

end
